theory Spec2Isabelle
  imports Complex_Main "HOL-Library.Word" "HOL-Library.Multiset" "HOL-Library.Log_Nat"
begin

unbundle bit_operations_syntax

section \<open>Numbers and grid cells\<close>

text \<open>
  The C++ \<^verbatim>\<open>float\<close> values of the path search (edge weights, accumulated costs,
  priorities) are IEEE 754 binary32 numbers: a value is a finite real, one of the two
  infinities or NaN. Every arithmetic operation computes the exact result and rounds it
  to the nearest binary32 number, ties to the even significand (the default rounding
  mode; intermediate results are kept in \<^verbatim>\<open>float\<close>, as with SSE arithmetic, and no
  operations are fused). The two zeros are one value here: they compare equal and the
  search never divides by a variable. \<^verbatim>\<open>int\<close> values are modelled by unbounded
  integers; where the code computes with them, leaving the range of \<^verbatim>\<open>int\<close> is
  undefined behaviour.
\<close>

datatype cfloat = Fin real | PosInf | NegInf | NaN

text \<open>Rounding a real to the nearest integer, a tie to the even one.\<close>

definition round_even :: "real \<Rightarrow> int" where
  "round_even x =
     (let n = \<lfloor>x\<rfloor>; d = x - of_int n
      in if d < 1 / 2 then n else if 1 / 2 < d then n + 1 else if even n then n else n + 1)"

text \<open>
  The exponent of the unit in the last place of the binary32 numbers around \<open>x\<close>: for
  \<open>2\<^sup>e \<le> \<bar>x\<bar> < 2\<^sup>e\<^sup>+\<^sup>1\<close> it is \<open>e - 23\<close> (24 significant bits), and never below
  \<open>-149\<close> (the subnormal numbers). \<open>bitlen n\<close> is the number of binary digits of \<open>n\<close>.
\<close>

definition ulp_exp :: "real \<Rightarrow> int" where
  "ulp_exp x = max (bitlen \<lfloor>\<bar>x\<bar> * 2 ^ 149\<rfloor> - 173) (- 149)"

text \<open>
  Rounding to 24 significant bits, and the conversion of an exact result to a
  \<^verbatim>\<open>float\<close>: a rounded magnitude of \<open>2\<^sup>1\<^sup>2\<^sup>8\<close> or more overflows to an infinity.
\<close>

definition rnd :: "real \<Rightarrow> real" where
  "rnd x = of_int (round_even (x / 2 powi ulp_exp x)) * 2 powi ulp_exp x"

definition to_float :: "real \<Rightarrow> cfloat" where
  "to_float x =
     (let r = rnd x
      in if 2 ^ 128 \<le> r then PosInf else if r \<le> - (2 ^ 128) then NegInf else Fin r)"

text \<open>The sign of a value, for products and quotients with an infinity.\<close>

fun fsign :: "cfloat \<Rightarrow> int" where
  "fsign (Fin a) = (if 0 < a then 1 else if a < 0 then - 1 else 0)"
| "fsign PosInf = 1"
| "fsign NegInf = - 1"
| "fsign NaN = 0"

instantiation cfloat :: "{zero, plus, times, inverse, ord}"
begin

definition zero_cfloat :: cfloat where
  "zero_cfloat = Fin 0"

fun plus_cfloat :: "cfloat \<Rightarrow> cfloat \<Rightarrow> cfloat" where
  "plus_cfloat (Fin a) (Fin b) = to_float (a + b)"
| "plus_cfloat NaN _ = NaN"
| "plus_cfloat _ NaN = NaN"
| "plus_cfloat PosInf NegInf = NaN"
| "plus_cfloat NegInf PosInf = NaN"
| "plus_cfloat PosInf _ = PosInf"
| "plus_cfloat _ PosInf = PosInf"
| "plus_cfloat NegInf _ = NegInf"
| "plus_cfloat _ NegInf = NegInf"

fun times_cfloat :: "cfloat \<Rightarrow> cfloat \<Rightarrow> cfloat" where
  "times_cfloat (Fin a) (Fin b) = to_float (a * b)"
| "times_cfloat NaN _ = NaN"
| "times_cfloat _ NaN = NaN"
| "times_cfloat x y =
     (let s = fsign x * fsign y in if s = 0 then NaN else if 0 < s then PosInf else NegInf)"

text \<open>A zero divisor counts as \<open>+0\<close>.\<close>

fun divide_cfloat :: "cfloat \<Rightarrow> cfloat \<Rightarrow> cfloat" where
  "divide_cfloat NaN _ = NaN"
| "divide_cfloat _ NaN = NaN"
| "divide_cfloat (Fin a) (Fin b) =
     (if b = 0 then (if a = 0 then NaN else if 0 < a then PosInf else NegInf)
      else to_float (a / b))"
| "divide_cfloat (Fin a) _ = Fin 0"
| "divide_cfloat x (Fin b) = (if fsign x * (if b < 0 then - 1 else 1) > 0 then PosInf else NegInf)"
| "divide_cfloat _ _ = NaN"

definition inverse_cfloat :: "cfloat \<Rightarrow> cfloat" where
  "inverse_cfloat x = Fin 1 div x"

fun less_eq_cfloat :: "cfloat \<Rightarrow> cfloat \<Rightarrow> bool" where
  "less_eq_cfloat NaN _ = False"
| "less_eq_cfloat _ NaN = False"
| "less_eq_cfloat (Fin a) (Fin b) = (a \<le> b)"
| "less_eq_cfloat NegInf _ = True"
| "less_eq_cfloat _ PosInf = True"
| "less_eq_cfloat _ _ = False"

fun less_cfloat :: "cfloat \<Rightarrow> cfloat \<Rightarrow> bool" where
  "less_cfloat NaN _ = False"
| "less_cfloat _ NaN = False"
| "less_cfloat (Fin a) (Fin b) = (a < b)"
| "less_cfloat PosInf _ = False"
| "less_cfloat _ NegInf = False"
| "less_cfloat _ _ = True"

instance ..

end

text \<open>
  \<^verbatim>\<open>static_cast<float>\<close> of an \<^verbatim>\<open>int\<close>, \<^verbatim>\<open>std::ceil\<close> (whose result is again a
  \<^verbatim>\<open>float\<close>), and the literal \<^verbatim>\<open>0.1f\<close>, the \<^verbatim>\<open>float\<close> nearest to one tenth.
\<close>

definition float_of_int :: "int \<Rightarrow> cfloat" where
  "float_of_int i = to_float (of_int i)"

fun fceil :: "cfloat \<Rightarrow> cfloat" where
  "fceil (Fin a) = Fin (of_int \<lceil>a\<rceil>)"
| "fceil x = x"

definition tenth :: cfloat where
  "tenth = to_float (1 / 10)"

definition INT_MAX :: int where
  "INT_MAX = 2147483647"

definition INT_MIN :: int where
  "INT_MIN = - 2147483648"

type_synonym GridPos = "int \<times> int"

text \<open>
  What the code can do instead of returning: \<^verbatim>\<open>std::out_of_range\<close> from
  \<^verbatim>\<open>at\<close>, \<^verbatim>\<open>std::length_error\<close> from \<^verbatim>\<open>resize\<close>, and undefined behaviour.
\<close>

datatype error = Out_of_range | Length_error | Undefined_behaviour

definition ENEMY_ATTACK :: int where
  "ENEMY_ATTACK = 10"

definition OBSTACLE_HEALTH :: int where
  "OBSTACLE_HEALTH = 20"

definition CELL_SIZE :: int where
  "CELL_SIZE = 40"

definition INFO_BAR_HEIGHT :: int where
  "INFO_BAR_HEIGHT = 40"

section \<open>The traversal graph\<close>

text \<open>
  \<^verbatim>\<open>Graph\<close> keeps an adjacency list per cell and a weight per packed edge key.
  \<^verbatim>\<open>edge_key\<close> packs the low 16 bits of the four coordinates into one
  \<^verbatim>\<open>long long\<close>.
\<close>

record Graph =
  edges :: "GridPos \<rightharpoonup> GridPos list"
  weights :: "64 word \<rightharpoonup> cfloat"

definition empty_graph :: Graph where
  "empty_graph = \<lparr>edges = Map.empty, weights = Map.empty\<rparr>"

definition edge_key :: "GridPos \<Rightarrow> GridPos \<Rightarrow> 64 word" where
  "edge_key a b =
     push_bit 48 (word_of_int (fst a) AND 0xFFFF) OR
     push_bit 32 (word_of_int (snd a) AND 0xFFFF) OR
     push_bit 16 (word_of_int (fst b) AND 0xFFFF) OR
     (word_of_int (snd b) AND 0xFFFF)"

definition neighbors :: "Graph \<Rightarrow> GridPos \<Rightarrow> GridPos list" where
  "neighbors g node = (case edges g node of None \<Rightarrow> [] | Some bs \<Rightarrow> bs)"

definition add_edge :: "Graph \<Rightarrow> GridPos \<Rightarrow> GridPos \<Rightarrow> cfloat \<Rightarrow> Graph" where
  "add_edge g a b w =
     g\<lparr>edges := (edges g)(a \<mapsto> neighbors g a @ [b]),
       weights := (weights g)(edge_key a b \<mapsto> w)\<rparr>"

definition cost :: "Graph \<Rightarrow> GridPos \<Rightarrow> GridPos \<Rightarrow> cfloat" where
  "cost g a b = (case weights g (edge_key a b) of None \<Rightarrow> PosInf | Some w \<Rightarrow> w)"

section \<open>Obstacles and items\<close>

record SDL_Rect =
  rect_x :: int
  rect_y :: int
  rect_w :: int
  rect_h :: int

record Obstacle =
  rect :: SDL_Rect
  type :: string
  health :: int
  is_main_block :: bool
  nonblocking :: bool

text \<open>The constructor \<^verbatim>\<open>Obstacle(gx, gy, t, hp)\<close>.\<close>

definition new_Obstacle :: "int \<Rightarrow> int \<Rightarrow> string \<Rightarrow> int \<Rightarrow> Obstacle" where
  "new_Obstacle gx gy t hp =
     \<lparr>rect = \<lparr>rect_x = gx * CELL_SIZE, rect_y = gy * CELL_SIZE + INFO_BAR_HEIGHT,
              rect_w = CELL_SIZE, rect_h = CELL_SIZE\<rparr>,
      type = t, health = hp, is_main_block = False, nonblocking = False\<rparr>"

text \<open>
  An \<^verbatim>\<open>Item\<close> is its grid cell and the \<^verbatim>\<open>is_main\<close> flag; its drawing geometry
  (radius, centre, rectangle) is a function of the cell and is left out.
\<close>

record Item =
  item_x :: int
  item_y :: int
  is_main :: bool

text \<open>Whether the obstacle map holds an obstacle of type \<open>t\<close> on cell \<open>p\<close>.\<close>

definition has_type :: "(GridPos \<rightharpoonup> Obstacle) \<Rightarrow> GridPos \<Rightarrow> string \<Rightarrow> bool" where
  "has_type obstacles p t = (case obstacles p of None \<Rightarrow> False | Some ob \<Rightarrow> type ob = t)"

section \<open>Path search\<close>

text \<open>
  \<^verbatim>\<open>heuristic\<close>: the Manhattan distance, computed in \<^verbatim>\<open>int\<close> and then converted.
  A difference, an absolute value or a sum outside the range of \<^verbatim>\<open>int\<close> is undefined
  behaviour.
\<close>

definition int_range :: "int \<Rightarrow> bool" where
  "int_range i = (INT_MIN \<le> i \<and> i \<le> INT_MAX)"

definition heuristic :: "GridPos \<Rightarrow> GridPos \<Rightarrow> error + cfloat" where
  "heuristic a b =
     (let dx = fst a - fst b; dy = snd a - snd b
      in if int_range dx \<and> int_range \<bar>dx\<bar> \<and> int_range dy \<and> int_range \<bar>dy\<bar> \<and>
            int_range (\<bar>dx\<bar> + \<bar>dy\<bar>)
         then Inr (float_of_int (\<bar>dx\<bar> + \<bar>dy\<bar>))
         else Inl Undefined_behaviour)"

type_synonym Node = "cfloat \<times> GridPos"

text \<open>
  The state of the search loop: the frontier (the entries of the priority queue, in the
  order they were pushed), the two result maps and the number of pops made so far.
\<close>

record search_state =
  frontier :: "Node list"
  came_from :: "GridPos \<rightharpoonup> GridPos"
  cost_so_far :: "GridPos \<rightharpoonup> cfloat"
  pops :: nat

text \<open>
  \<^verbatim>\<open>std::priority_queue\<close> with the comparator \<^verbatim>\<open>a.first > b.first\<close> hands out one of
  its entries, one of least priority; which one among equal priorities depends on the
  heap. The choice is a parameter \<open>pick\<close> of the model: at the \<open>k\<close>-th pop it names the
  position of the entry taken. \<open>picks_entry\<close> says that it names an entry of the queue,
  \<open>heap_top\<close> that no entry of the queue has a smaller priority than the one it names;
  \<open>first_min\<close> is the choice of the first entry of least priority.
\<close>

definition picks_entry :: "(nat \<Rightarrow> Node list \<Rightarrow> nat) \<Rightarrow> bool" where
  "picks_entry pick = (\<forall>k fr. fr \<noteq> [] \<longrightarrow> pick k fr < length fr)"

definition heap_top :: "(nat \<Rightarrow> Node list \<Rightarrow> nat) \<Rightarrow> bool" where
  "heap_top pick =
     (\<forall>k fr. fr \<noteq> [] \<longrightarrow>
        pick k fr < length fr \<and> (\<forall>e \<in> set fr. \<not> fst e < fst (fr ! pick k fr)))"

fun first_min_idx :: "Node list \<Rightarrow> nat" where
  "first_min_idx [] = 0"
| "first_min_idx [x] = 0"
| "first_min_idx (x # y # ys) =
     (let j = first_min_idx (y # ys) in if fst x \<le> fst ((y # ys) ! j) then 0 else Suc j)"

definition first_min :: "nat \<Rightarrow> Node list \<Rightarrow> nat" where
  "first_min k fr = first_min_idx fr"

text \<open>
  Reading \<^verbatim>\<open>cost_so_far[p]\<close>. The C++ subscript would insert \<open>0\<close> for a missing key;
  the loop only reads cells it has recorded (lemma \<open>frontier_recorded\<close> below), so the
  insertion never happens and the model only reads.
\<close>

definition subscript :: "(GridPos \<rightharpoonup> cfloat) \<Rightarrow> GridPos \<Rightarrow> cfloat" where
  "subscript m p = (case m p of None \<Rightarrow> 0 | Some v \<Rightarrow> v)"

text \<open>
  The cost the loop body computes for one neighbor, lines 358 to 366: \<open>None\<close> is the
  \<^verbatim>\<open>continue\<close> on an Indestructible obstacle.
\<close>

definition new_cost_of ::
  "Graph \<Rightarrow> (GridPos \<rightharpoonup> Obstacle) \<Rightarrow> (GridPos \<rightharpoonup> cfloat) \<Rightarrow> GridPos \<Rightarrow> GridPos \<Rightarrow> cfloat option" where
  "new_cost_of graph obstacles csf current neighbor =
     (let new_cost = subscript csf current + cost graph current neighbor in
      case obstacles neighbor of
        None \<Rightarrow> Some new_cost
      | Some ob \<Rightarrow>
          if type ob = ''Indestructible'' then None
          else if type ob = ''Destructible'' then
            (let k_factor = fceil (float_of_int (health ob) / float_of_int ENEMY_ATTACK) * tenth
             in Some (subscript csf current + Fin 1 + k_factor))
          else Some new_cost)"

text \<open>
  One pass of the body of the \<^verbatim>\<open>for\<close> loop over the neighbors, lines 357 to 373;
  \<open>Inl\<close> is undefined behaviour in \<^verbatim>\<open>heuristic\<close>.
\<close>

definition visit_neighbor ::
  "Graph \<Rightarrow> GridPos \<Rightarrow> (GridPos \<rightharpoonup> Obstacle) \<Rightarrow> GridPos \<Rightarrow> search_state \<Rightarrow> GridPos
     \<Rightarrow> error + search_state" where
  "visit_neighbor graph goal obstacles current st neighbor =
     (case new_cost_of graph obstacles (cost_so_far st) current neighbor of
        None \<Rightarrow> Inr st
      | Some new_cost \<Rightarrow>
          if cost_so_far st neighbor = None \<or> new_cost < subscript (cost_so_far st) neighbor
          then
            (case heuristic goal neighbor of
               Inl e \<Rightarrow> Inl e
             | Inr h \<Rightarrow>
                 Inr (st\<lparr>cost_so_far := (cost_so_far st)(neighbor \<mapsto> new_cost),
                         frontier := frontier st @ [(new_cost + h, neighbor)],
                         came_from := (came_from st)(neighbor \<mapsto> current)\<rparr>))
          else Inr st)"

definition expand ::
  "Graph \<Rightarrow> GridPos \<Rightarrow> (GridPos \<rightharpoonup> Obstacle) \<Rightarrow> GridPos \<Rightarrow> search_state
     \<Rightarrow> error + search_state" where
  "expand graph goal obstacles current st =
     fold (\<lambda>neighbor r.
             case r of Inl e \<Rightarrow> Inl e
             | Inr s \<Rightarrow> visit_neighbor graph goal obstacles current s neighbor)
       (neighbors graph current) (Inr st)"

text \<open>
  The \<^verbatim>\<open>while (!frontier.empty())\<close> loop, as a partial function: \<open>None\<close> would be a
  search that runs forever.
\<close>

definition pop_at :: "nat \<Rightarrow> search_state \<Rightarrow> search_state" where
  "pop_at i st =
     st\<lparr>frontier := take i (frontier st) @ drop (Suc i) (frontier st), pops := Suc (pops st)\<rparr>"

partial_function (option) a_star_loop ::
  "(nat \<Rightarrow> Node list \<Rightarrow> nat) \<Rightarrow> Graph \<Rightarrow> GridPos \<Rightarrow> (GridPos \<rightharpoonup> Obstacle) \<Rightarrow> search_state
     \<Rightarrow> (error + search_state) option" where
  "a_star_loop pick graph goal obstacles st =
     (if frontier st = [] then Some (Inr st)
      else
        (let i = pick (pops st) (frontier st);
             current = snd (frontier st ! i)
         in if current = goal then Some (Inr (pop_at i st))
            else
              (case expand graph goal obstacles current (pop_at i st) of
                 Inl e \<Rightarrow> Some (Inl e)
               | Inr st' \<Rightarrow> a_star_loop pick graph goal obstacles st')))"

declare a_star_loop.simps [code]

definition init_state :: "GridPos \<Rightarrow> search_state" where
  "init_state start =
     \<lparr>frontier = [(Fin 0, start)], came_from = [start \<mapsto> start],
      cost_so_far = [start \<mapsto> Fin 0], pops = 0\<rparr>"

definition a_star_search ::
  "(nat \<Rightarrow> Node list \<Rightarrow> nat) \<Rightarrow> Graph \<Rightarrow> GridPos \<Rightarrow> GridPos \<Rightarrow> (GridPos \<rightharpoonup> Obstacle)
     \<Rightarrow> (error + (GridPos \<rightharpoonup> GridPos) \<times> (GridPos \<rightharpoonup> cfloat)) option" where
  "a_star_search pick graph start goal obstacles =
     map_option (map_sum id (\<lambda>st. (came_from st, cost_so_far st)))
       (a_star_loop pick graph goal obstacles (init_state start))"

text \<open>
  \<^verbatim>\<open>reconstruct_path\<close>: the loop follows \<^verbatim>\<open>came_from\<close> back from the goal.
  \<^verbatim>\<open>came_from.at\<close> throws \<^verbatim>\<open>std::out_of_range\<close> on a missing key, and the loop
  need not end (\<open>None\<close>).
\<close>

partial_function (option) walk_back ::
  "(GridPos \<rightharpoonup> GridPos) \<Rightarrow> GridPos \<Rightarrow> GridPos \<Rightarrow> GridPos list \<Rightarrow> (error + GridPos list) option" where
  "walk_back cf start current path =
     (if current \<noteq> start then
        (case cf current of
           None \<Rightarrow> Some (Inl Out_of_range)
         | Some p \<Rightarrow> walk_back cf start p (path @ [current]))
      else Some (Inr path))"

declare walk_back.simps [code]

definition reconstruct_path ::
  "(GridPos \<rightharpoonup> GridPos) \<Rightarrow> GridPos \<Rightarrow> GridPos \<Rightarrow> (error + GridPos list) option" where
  "reconstruct_path cf start goal =
     (case cf goal of
        None \<Rightarrow> Some (Inr [start])
      | Some _ \<Rightarrow>
          (case walk_back cf start goal [] of
             None \<Rightarrow> None
           | Some (Inl e) \<Rightarrow> Some (Inl e)
           | Some (Inr path) \<Rightarrow> Some (Inr (rev (path @ [start])))))"

section \<open>Building the graph\<close>

definition dirs :: "GridPos list" where
  "dirs = [(-1, 0), (1, 0), (0, -1), (0, 1)]"

text \<open>The body of the loop over the four directions, lines 534 to 540.\<close>

definition visit_dir ::
  "int \<Rightarrow> (GridPos \<rightharpoonup> Obstacle) \<Rightarrow> GridPos \<Rightarrow> Graph \<Rightarrow> GridPos \<Rightarrow> Graph" where
  "visit_dir grid_size obstacles current graph d =
     (let neighbor = (fst current + fst d, snd current + snd d) in
      if fst neighbor < 0 \<or> snd neighbor < 0 \<or> fst neighbor \<ge> grid_size \<or> snd neighbor \<ge> grid_size
      then graph
      else if has_type obstacles neighbor ''Indestructible'' then graph
      else add_edge graph current neighbor
             (if has_type obstacles neighbor ''Destructible'' then Fin 10 else Fin 1))"

text \<open>The body of the loops over the cells, lines 529 to 541.\<close>

definition visit_cell ::
  "int \<Rightarrow> (GridPos \<rightharpoonup> Obstacle) \<Rightarrow> Graph \<Rightarrow> GridPos \<Rightarrow> Graph" where
  "visit_cell grid_size obstacles graph current =
     (if has_type obstacles current ''Indestructible'' then graph
      else fold (\<lambda>d g. visit_dir grid_size obstacles current g d) dirs graph)"

definition build_graph :: "int \<Rightarrow> (GridPos \<rightharpoonup> Obstacle) \<Rightarrow> Graph" where
  "build_graph grid_size obstacles =
     fold (\<lambda>x g. fold (\<lambda>y g'. visit_cell grid_size obstacles g' (x, y)) [0..grid_size - 1] g)
       [0..grid_size - 1] empty_graph"

section \<open>Random placement\<close>

text \<open>
  The process-wide generator \<^verbatim>\<open>rng\<close> is modelled by the outcomes of its uses: the
  \<open>t\<close>-th use of the generator by \<^verbatim>\<open>std::shuffle\<close> turns a list \<open>xs\<close> into
  \<open>shuffle rng t xs\<close>, and by \<^verbatim>\<open>rand_int(lo, hi)\<close> yields \<open>rand_int rng t lo hi\<close>.
  \<open>fair\<close> says what the library promises of them: a shuffle permutes, and a draw lies
  within its bounds.
\<close>

record random_source =
  shuffle :: "nat \<Rightarrow> GridPos list \<Rightarrow> GridPos list"
  rand_int :: "nat \<Rightarrow> int \<Rightarrow> int \<Rightarrow> int"

definition fair :: "random_source \<Rightarrow> bool" where
  "fair rng =
     ((\<forall>t xs. mset (shuffle rng t xs) = mset xs) \<and>
      (\<forall>t lo hi. lo \<le> hi \<longrightarrow> lo \<le> rand_int rng t lo hi \<and> rand_int rng t lo hi \<le> hi))"

definition is_not_edge :: "GridPos \<Rightarrow> int \<Rightarrow> bool" where
  "is_not_edge pos grid_size =
     (fst pos \<ge> 1 \<and> fst pos < grid_size - 1 \<and> snd pos \<ge> 1 \<and> snd pos < grid_size - 1)"

text \<open>
  \<^verbatim>\<open>v.resize(static_cast<std::size_t>(n))\<close>: a negative \<open>n\<close> becomes a size beyond
  \<^verbatim>\<open>max_size()\<close> and \<^verbatim>\<open>resize\<close> throws \<^verbatim>\<open>std::length_error\<close>; otherwise the vector
  is cut, or filled up with value-initialised elements.
\<close>

definition resize :: "'a list \<Rightarrow> int \<Rightarrow> 'a \<Rightarrow> error + 'a list" where
  "resize v n filler =
     (if n < 0 then Inl Length_error
      else Inr (take (nat n) v @ replicate (nat n - length v) filler))"

text \<open>\<^verbatim>\<open>unordered_map::emplace\<close> keeps the entry of a key that is already there.\<close>

definition emplace :: "('k \<rightharpoonup> 'v) \<Rightarrow> 'k \<Rightarrow> 'v \<Rightarrow> ('k \<rightharpoonup> 'v)" where
  "emplace m k v = (case m k of None \<Rightarrow> m(k \<mapsto> v) | Some _ \<Rightarrow> m)"

definition manhattan :: "GridPos \<Rightarrow> GridPos \<Rightarrow> int" where
  "manhattan a b = \<bar>fst a - fst b\<bar> + \<bar>snd a - snd b\<bar>"

text \<open>
  The lambda \<^verbatim>\<open>pick_valid_positions\<close>, lines 448 to 467. Each round shuffles all
  positions anew; the loop has no bound, so it is a partial function (\<open>None\<close>: it runs
  forever). Reading \<^verbatim>\<open>picks[0]\<close> of an empty vector is undefined. The result carries
  the number of uses of the generator so far. \<open>cnt\<close> is the parameter \<^verbatim>\<open>count\<close>.
\<close>

partial_function (option) pick_valid_positions ::
  "random_source \<Rightarrow> GridPos list \<Rightarrow> int \<Rightarrow> int \<Rightarrow> nat
     \<Rightarrow> (error + GridPos \<times> GridPos list \<times> nat) option" where
  "pick_valid_positions rng all_positions min_distance cnt t =
     (case resize (shuffle rng t all_positions) (cnt + 1) (0, 0) of
        Inl e \<Rightarrow> Some (Inl e)
      | Inr picks \<Rightarrow>
          (case picks of
             [] \<Rightarrow> Some (Inl Undefined_behaviour)
           | player_pos # enemies \<Rightarrow>
               if \<forall>e \<in> set enemies. \<not> manhattan player_pos e < min_distance
               then Some (Inr (player_pos, enemies, Suc t))
               else pick_valid_positions rng all_positions min_distance cnt (Suc t)))"

declare pick_valid_positions.simps [code]

text \<open>What \<^verbatim>\<open>generate_game_entities\<close> returns.\<close>

record entities =
  gen_obstacles :: "GridPos \<rightharpoonup> Obstacle"
  gen_items :: "Item list"
  gen_player_pos :: GridPos
  gen_enemy_pos_list :: "GridPos list"
  gen_main_item_list :: "GridPos list"

text \<open>The cell of an item.\<close>

definition item_pos :: "Item \<Rightarrow> GridPos" where
  "item_pos i = (item_x i, item_y i)"

definition grid_positions :: "int \<Rightarrow> GridPos list" where
  "grid_positions grid_size =
     concat (map (\<lambda>x. map (\<lambda>y. (x, y)) [0..grid_size - 1]) [0..grid_size - 1])"

definition corners :: "int \<Rightarrow> GridPos set" where
  "corners grid_size =
     {(0, 0), (0, grid_size - 1), (grid_size - 1, 0), (grid_size - 1, grid_size - 1)}"

text \<open>The loop of lines 496 to 503, one obstacle per remaining candidate.\<close>

definition place_rest ::
  "int \<Rightarrow> GridPos list \<Rightarrow> (GridPos \<rightharpoonup> Obstacle) \<Rightarrow> (GridPos \<rightharpoonup> Obstacle)" where
  "place_rest destructible_count rest_candidates obstacles =
     fold (\<lambda>(i, pos) m.
             if int i < destructible_count
             then emplace m pos (new_Obstacle (fst pos) (snd pos) ''Destructible'' OBSTACLE_HEALTH)
             else emplace m pos (new_Obstacle (fst pos) (snd pos) ''Indestructible'' 0))
       (enumerate 0 rest_candidates) obstacles"

text \<open>
  Lines 470 to 522, what follows the choice of the starts. \<open>t\<close> counts the uses of the
  generator so far. \<^verbatim>\<open>rand_int(0, -1)\<close> on an empty candidate list has undefined
  behaviour. The product \<^verbatim>\<open>rest_count * DESTRUCTIBLE_RATIO\<close> is taken exactly.
\<close>

definition place_entities ::
  "random_source \<Rightarrow> int \<Rightarrow> int \<Rightarrow> int \<Rightarrow> int \<Rightarrow> GridPos list \<Rightarrow> GridPos \<Rightarrow> GridPos list \<Rightarrow> nat
     \<Rightarrow> error + entities" where
  "place_entities rng grid_size obstacle_count item_count main_block_hp all_positions
       player_pos enemy_pos_list t =
     (let forbidden1 = fold insert enemy_pos_list (insert player_pos (corners grid_size));
          main_item_candidates =
            filter (\<lambda>p. p \<notin> forbidden1 \<and> is_not_edge p grid_size) all_positions
      in if main_item_candidates = [] then Inl Undefined_behaviour
         else
           (let main_item_pos =
                  main_item_candidates !
                    nat (rand_int rng t 0 (int (length main_item_candidates) - 1));
                forbidden2 = insert main_item_pos forbidden1;
                main_block =
                  (new_Obstacle (fst main_item_pos) (snd main_item_pos) ''Destructible''
                     main_block_hp) \<lparr>is_main_block := True\<rparr>;
                obstacles0 = emplace Map.empty main_item_pos main_block;
                rest_candidates = filter (\<lambda>p. p \<notin> forbidden2) all_positions;
                rest_count0 = obstacle_count - 1;
                rest_count1 = (if rest_count0 < 0 then 0 else rest_count0);
                rest_count =
                  (if rest_count1 > int (length rest_candidates)
                   then int (length rest_candidates) else rest_count1)
            in case resize (shuffle rng (Suc t) rest_candidates) rest_count (0, 0) of
                 Inl e \<Rightarrow> Inl e
               | Inr rest \<Rightarrow>
                   (let destructible_count = \<lfloor>of_int rest_count * (3 / 10 :: real)\<rfloor>;
                        obstacles1 = place_rest destructible_count rest obstacles0;
                        forbidden3 = fold insert rest forbidden2;
                        item_candidates = filter (\<lambda>p. p \<notin> forbidden3) all_positions;
                        item_count1 = (if item_count < 1 then 1 else item_count);
                        item_count2 =
                          (if item_count1 > int (length item_candidates)
                           then int (length item_candidates) else item_count1)
                    in case resize (shuffle rng (Suc (Suc t)) item_candidates)
                              (item_count2 - 1) (0, 0) of
                         Inl e \<Rightarrow> Inl e
                       | Inr chosen \<Rightarrow>
                           Inr \<lparr>gen_obstacles = obstacles1,
                                gen_items =
                                  map (\<lambda>p. \<lparr>item_x = fst p, item_y = snd p, is_main = False\<rparr>)
                                    chosen @
                                  [\<lparr>item_x = fst main_item_pos, item_y = snd main_item_pos,
                                    is_main = True\<rparr>],
                                gen_player_pos = player_pos,
                                gen_enemy_pos_list = enemy_pos_list,
                                gen_main_item_list = [main_item_pos]\<rparr>)))"

text \<open>\<^verbatim>\<open>generate_game_entities\<close>; the minimum distance of the starts is 5.\<close>

definition generate_game_entities ::
  "random_source \<Rightarrow> int \<Rightarrow> int \<Rightarrow> int \<Rightarrow> int \<Rightarrow> int \<Rightarrow> (error + entities) option" where
  "generate_game_entities rng grid_size obstacle_count item_count enemy_count main_block_hp =
     (let all_positions = grid_positions grid_size
      in case pick_valid_positions rng all_positions 5 enemy_count 0 of
           None \<Rightarrow> None
         | Some (Inl e) \<Rightarrow> Some (Inl e)
         | Some (Inr (player_pos, enemy_pos_list, t)) \<Rightarrow>
             Some (place_entities rng grid_size obstacle_count item_count main_block_hp
                     all_positions player_pos enemy_pos_list t))"

text \<open>
  A fair random source for the examples: every shuffle keeps the first element and
  reverses the rest, every draw is the lower bound.
\<close>

definition demo_rng :: random_source where
  "demo_rng =
     \<lparr>shuffle = (\<lambda>t xs. case xs of [] \<Rightarrow> [] | x # ys \<Rightarrow> x # rev ys),
      rand_int = (\<lambda>t lo hi. lo)\<rparr>"

section \<open>Level configuration\<close>

record LevelConfig =
  obstacle_count :: int
  item_count :: int
  enemy_count :: int
  block_hp :: int
  enemy_types :: "string list"
  reward :: string

definition CARD_POOL :: "string list" where
  "CARD_POOL = [''enemy_fast'', ''enemy_strong'', ''enemy_tank'', ''enemy_spitter'', ''enemy_leech'']"

definition BASE_LEVELS :: "LevelConfig list" where
  "BASE_LEVELS =
     [\<lparr>obstacle_count = 15, item_count = 3, enemy_count = 1, block_hp = 10,
       enemy_types = [''basic''], reward = ''enemy_fast''\<rparr>,
      \<lparr>obstacle_count = 18, item_count = 4, enemy_count = 2, block_hp = 15,
       enemy_types = [''basic'', ''strong''], reward = ''enemy_strong''\<rparr>]"

text \<open>
  \<^verbatim>\<open>static_cast<int>\<close> of a \<^verbatim>\<open>double\<close> drops the fraction; the behaviour is undefined
  when the result does not fit an \<^verbatim>\<open>int\<close>.
\<close>

definition double_to_int :: "real \<Rightarrow> error + int" where
  "double_to_int v =
     (let t = (if 0 \<le> v then \<lfloor>v\<rfloor> else \<lceil>v\<rceil>)
      in if INT_MIN \<le> t \<and> t \<le> INT_MAX then Inr t else Inl Undefined_behaviour)"

text \<open>
  \<^verbatim>\<open>get_level_config\<close>. \<open>draw\<close> is the number \<^verbatim>\<open>rand_int(0, 4)\<close> returns. The
  power \<^verbatim>\<open>std::pow(1.2, n)\<close> is taken exactly. The division \<^verbatim>\<open>level / 3\<close> is only
  reached with \<open>level \<ge> 2\<close>, where truncation and \<open>div\<close> agree. A negative index into
  \<^verbatim>\<open>BASE_LEVELS\<close> and an \<^verbatim>\<open>int\<close> overflow are undefined behaviour.
\<close>

definition get_level_config :: "int \<Rightarrow> int \<Rightarrow> error + LevelConfig" where
  "get_level_config draw level =
     (if level < int (length BASE_LEVELS) then
        (if level < 0 then Inl Undefined_behaviour else Inr (BASE_LEVELS ! nat level))
      else if 20 + level > INT_MAX then Inl Undefined_behaviour
      else
        (case double_to_int (10 * (12 / 10) ^ nat (level - int (length BASE_LEVELS) + 1)) of
           Inl e \<Rightarrow> Inl e
         | Inr hp \<Rightarrow>
             Inr \<lparr>obstacle_count = 20 + level, item_count = 5,
                  enemy_count = min 5 (1 + level div 3), block_hp = hp,
                  enemy_types = [''basic'', ''strong'', ''fire''],
                  reward = CARD_POOL ! nat draw\<rparr>))"

section \<open>The edges a graph is built from\<close>

text \<open>
  Auxiliary notions for the statements about \<open>build_graph\<close>: the cells of the grid, and
  the list of edges the loops add, in the order they add them.
\<close>

type_synonym edge = "GridPos \<times> GridPos \<times> cfloat"

definition in_grid :: "int \<Rightarrow> GridPos \<Rightarrow> bool" where
  "in_grid n p = (0 \<le> fst p \<and> fst p < n \<and> 0 \<le> snd p \<and> snd p < n)"

definition add_edges :: "edge list \<Rightarrow> Graph \<Rightarrow> Graph" where
  "add_edges es g = fold (\<lambda>e g'. add_edge g' (fst e) (fst (snd e)) (snd (snd e))) es g"

definition dir_edges :: "int \<Rightarrow> (GridPos \<rightharpoonup> Obstacle) \<Rightarrow> GridPos \<Rightarrow> GridPos \<Rightarrow> edge list" where
  "dir_edges n obstacles c d =
     (let b = (fst c + fst d, snd c + snd d) in
      if in_grid n b \<and> \<not> has_type obstacles b ''Indestructible''
      then [(c, b, if has_type obstacles b ''Destructible'' then Fin 10 else Fin 1)]
      else [])"

definition cell_edges :: "int \<Rightarrow> (GridPos \<rightharpoonup> Obstacle) \<Rightarrow> GridPos \<Rightarrow> edge list" where
  "cell_edges n obstacles c =
     (if has_type obstacles c ''Indestructible'' then []
      else concat (map (dir_edges n obstacles c) dirs))"

definition row_edges :: "int \<Rightarrow> (GridPos \<rightharpoonup> Obstacle) \<Rightarrow> int \<Rightarrow> edge list" where
  "row_edges n obstacles x = concat (map (\<lambda>y. cell_edges n obstacles (x, y)) [0..n - 1])"

definition all_edges :: "int \<Rightarrow> (GridPos \<rightharpoonup> Obstacle) \<Rightarrow> edge list" where
  "all_edges n obstacles = concat (map (row_edges n obstacles) [0..n - 1])"

section \<open>Example inputs\<close>

text \<open>A 3 by 3 grid whose centre is enclosed by four Indestructible obstacles.\<close>

definition enclosed_obstacles :: "GridPos \<rightharpoonup> Obstacle" where
  "enclosed_obstacles =
     [(1, 0) \<mapsto> new_Obstacle 1 0 ''Indestructible'' 0,
      (0, 1) \<mapsto> new_Obstacle 0 1 ''Indestructible'' 0,
      (2, 1) \<mapsto> new_Obstacle 2 1 ''Indestructible'' 0,
      (1, 2) \<mapsto> new_Obstacle 1 2 ''Indestructible'' 0]"

text \<open>One Destructible obstacle of health 5 and one Indestructible obstacle.\<close>

definition two_obstacles :: "GridPos \<rightharpoonup> Obstacle" where
  "two_obstacles =
     [(1, 0) \<mapsto> new_Obstacle 1 0 ''Destructible'' 5,
      (0, 1) \<mapsto> new_Obstacle 0 1 ''Indestructible'' 0]"

text \<open>One Destructible obstacle next to the origin, for a grid of side 65537.\<close>

definition collide_obstacles :: "GridPos \<rightharpoonup> Obstacle" where
  "collide_obstacles = [(0, 1) \<mapsto> new_Obstacle 0 1 ''Destructible'' 20]"

text \<open>
  A graph whose weights are positive, and an obstacle of health \<open>-200\<close> on \<open>(100, 0)\<close>:
  the step onto that cell lowers the cost by one, so the cycle between \<open>(100, 0)\<close> and
  \<open>(0, 2)\<close> has negative cost.
\<close>

definition loop_graph :: Graph where
  "loop_graph =
     add_edge (add_edge (add_edge (add_edge empty_graph
       (0, 0) (100, 0) (Fin 1)) (100, 0) (0, 2) (Fin (1 / 2))) (100, 0) (0, 1) (Fin 2))
       (0, 2) (100, 0) (Fin 1)"

definition loop_obstacles :: "GridPos \<rightharpoonup> Obstacle" where
  "loop_obstacles = [(100, 0) \<mapsto> new_Obstacle 100 0 ''Destructible'' (- 200)]"

text \<open>
  A graph that is out of date: it still has an edge onto \<open>(0, 1)\<close>, which now holds an
  Indestructible obstacle, and the weight \<open>10\<close> for the step onto the Destructible
  obstacle on \<open>(1, 0)\<close>.
\<close>

definition stale_graph :: Graph where
  "stale_graph =
     add_edge (add_edge (add_edge empty_graph
       (0, 0) (1, 0) (Fin 10)) (0, 0) (0, 1) (Fin 1)) (1, 0) (1, 1) (Fin 1)"

definition stale_obstacles :: "GridPos \<rightharpoonup> Obstacle" where
  "stale_obstacles =
     [(1, 0) \<mapsto> new_Obstacle 1 0 ''Destructible'' 5,
      (0, 1) \<mapsto> new_Obstacle 0 1 ''Indestructible'' 0]"

text \<open>
  A graph with one edge of weight \<open>2\<^sup>2\<^sup>4 = 16777216\<close> before a Destructible obstacle of
  health 5.
\<close>

definition far_graph :: Graph where
  "far_graph =
     add_edge (add_edge empty_graph (0, 0) (1, 0) (Fin 16777216)) (1, 0) (2, 0) (Fin 1)"

definition far_obstacles :: "GridPos \<rightharpoonup> Obstacle" where
  "far_obstacles = [(2, 0) \<mapsto> new_Obstacle 2 0 ''Destructible'' 5]"

text \<open>A graph with an edge between cells that are far apart.\<close>

definition jump_graph :: Graph where
  "jump_graph =
     add_edge (add_edge (add_edge empty_graph
       (0, 0) (1, 0) (Fin 3)) (0, 0) (100, 0) (Fin 1)) (100, 0) (1, 0) (Fin 1)"
section \<open>Auxiliary notions for the statements about the search\<close>

text \<open>
  The rule of the specification for examining a neighbor, as the cost charged for
  reaching \<open>neighbor\<close> from \<open>current\<close> when \<open>current\<close> has cost \<open>c\<close>: no step onto
  an Indestructible obstacle (\<open>None\<close>); onto a Destructible obstacle of health \<open>h\<close> the
  cost \<open>c + 1.0 + ceil(h / ENEMY_ATTACK) * 0.1\<close>, evaluated from left to right in
  \<^verbatim>\<open>float\<close>; otherwise \<open>c\<close> plus the weight of the edge in the graph.
\<close>

definition charged ::
  "Graph \<Rightarrow> (GridPos \<rightharpoonup> Obstacle) \<Rightarrow> cfloat \<Rightarrow> GridPos \<Rightarrow> GridPos \<Rightarrow> cfloat option" where
  "charged graph obstacles c current neighbor =
     (if has_type obstacles neighbor ''Indestructible'' then None
      else if has_type obstacles neighbor ''Destructible'' then
        (case obstacles neighbor of
           None \<Rightarrow> None
         | Some ob \<Rightarrow> Some (c + Fin 1 + fceil (float_of_int (health ob) / Fin 10) * tenth))
      else Some (c + cost graph current neighbor))"

text \<open>
  \<^verbatim>\<open>heuristic\<close> is defined (no \<^verbatim>\<open>int\<close> overflow) on every cell the search can reach.
\<close>

definition heuristic_defined :: "Graph \<Rightarrow> GridPos \<Rightarrow> bool" where
  "heuristic_defined graph goal =
     (\<forall>u v. v \<in> set (neighbors graph u) \<longrightarrow> (\<exists>h. heuristic goal v = Inr h))"

text \<open>The predecessor relation that \<open>came_from\<close> records.\<close>

definition pred_rel :: "(GridPos \<rightharpoonup> GridPos) \<Rightarrow> GridPos \<Rightarrow> (GridPos \<times> GridPos) set" where
  "pred_rel cf start = {(u, n). n \<noteq> start \<and> cf n = Some u}"

text \<open>
  The finitely many values of a \<^verbatim>\<open>float\<close>, the number of them below a recorded cost,
  the cells a search from \<open>start\<close> can record, and the measure that decreases whenever
  the search records a cost.
\<close>

definition float_values :: "cfloat set" where
  "float_values =
     {PosInf, NegInf, NaN} \<union>
     (\<lambda>(m, k). Fin (real_of_int m * 2 powi k)) ` ({- 16777216 .. 16777216} \<times> {- 149 .. 104})"

definition rank :: "cfloat option \<Rightarrow> nat" where
  "rank c =
     (case c of None \<Rightarrow> Suc (card float_values) | Some x \<Rightarrow> card {f \<in> float_values. f < x})"

definition nodes :: "Graph \<Rightarrow> GridPos \<Rightarrow> GridPos set" where
  "nodes g start = insert start (\<Union>u \<in> dom (edges g). set (neighbors g u))"

definition rank_sum :: "Graph \<Rightarrow> GridPos \<Rightarrow> search_state \<Rightarrow> nat" where
  "rank_sum g start st = (\<Sum>n \<in> nodes g start. rank (cost_so_far st n))"

text \<open>The invariants of the search loop.\<close>

definition basic_inv :: "Graph \<Rightarrow> GridPos \<Rightarrow> search_state \<Rightarrow> bool" where
  "basic_inv g start st =
     (dom (came_from st) = dom (cost_so_far st) \<and>
      dom (cost_so_far st) \<subseteq> nodes g start \<and>
      (\<forall>e \<in> set (frontier st). snd e \<in> dom (cost_so_far st)) \<and>
      (\<forall>n c. cost_so_far st n = Some c \<longrightarrow> c \<in> float_values))"

definition charged_inv ::
  "Graph \<Rightarrow> (GridPos \<rightharpoonup> Obstacle) \<Rightarrow> GridPos \<Rightarrow> search_state \<Rightarrow> bool" where
  "charged_inv g obstacles start st =
     (basic_inv g start st \<and>
      (\<forall>n u. came_from st n = Some u \<longrightarrow>
         n = start \<and> u = start \<and> cost_so_far st n = Some (Fin 0) \<or>
         n \<in> set (neighbors g u) \<and>
         (\<exists>c cu x. cost_so_far st u = Some cu \<and> (cu = c \<or> cu < c) \<and>
            cost_so_far st n = Some x \<and> charged g obstacles c u n = Some x)))"

text \<open>A cost that is not negative: a non-negative \<^verbatim>\<open>float\<close> or \<open>+\<infinity>\<close>.\<close>

definition nonneg_float :: "cfloat \<Rightarrow> bool" where
  "nonneg_float c = (c = PosInf \<or> (\<exists>a. c = Fin a \<and> 0 \<le> a \<and> rnd a = a))"

definition tree_inv :: "Graph \<Rightarrow> GridPos \<Rightarrow> search_state \<Rightarrow> bool" where
  "tree_inv g start st =
     (basic_inv g start st \<and>
      cost_so_far st start = Some (Fin 0) \<and> came_from st start = Some start \<and>
      (\<forall>n c. cost_so_far st n = Some c \<longrightarrow> nonneg_float c) \<and>
      (\<forall>n u. n \<noteq> start \<and> came_from st n = Some u \<longrightarrow>
         (\<exists>cu cn. cost_so_far st u = Some cu \<and> cost_so_far st n = Some cn \<and> cu \<le> cn)) \<and>
      acyclic (pred_rel (came_from st) start))"
section \<open>Auxiliary notions for the cost of paths\<close>

text \<open>
  A path of the graph that the obstacle map allows, and its total cost: the cost that the
  rule \<open>charged\<close> accumulates along the path, starting from 0.
\<close>

fun valid_path :: "Graph \<Rightarrow> (GridPos \<rightharpoonup> Obstacle) \<Rightarrow> GridPos list \<Rightarrow> bool" where
  "valid_path g obstacles (x # y # rest) =
     (y \<in> set (neighbors g x) \<and> \<not> has_type obstacles y ''Indestructible'' \<and>
      valid_path g obstacles (y # rest))"
| "valid_path g obstacles [x] = True"
| "valid_path g obstacles [] = False"

fun path_cost_from :: "Graph \<Rightarrow> (GridPos \<rightharpoonup> Obstacle) \<Rightarrow> cfloat \<Rightarrow> GridPos list \<Rightarrow> cfloat" where
  "path_cost_from g obstacles c (x # y # rest) =
     path_cost_from g obstacles
       (case charged g obstacles c x y of None \<Rightarrow> PosInf | Some c' \<Rightarrow> c') (y # rest)"
| "path_cost_from g obstacles c [x] = c"
| "path_cost_from g obstacles c [] = c"

definition path_cost :: "Graph \<Rightarrow> (GridPos \<rightharpoonup> Obstacle) \<Rightarrow> GridPos list \<Rightarrow> cfloat" where
  "path_cost g obstacles p = path_cost_from g obstacles (Fin 0) p"

definition path_between ::
  "Graph \<Rightarrow> (GridPos \<rightharpoonup> Obstacle) \<Rightarrow> GridPos \<Rightarrow> GridPos \<Rightarrow> GridPos list \<Rightarrow> bool" where
  "path_between g obstacles a b p = (p \<noteq> [] \<and> hd p = a \<and> last p = b \<and> valid_path g obstacles p)"

text \<open>
  The setting in which the arithmetic of the search is exact: every edge has a weight
  that is a whole number, at most \<open>W\<close>; the heuristic is consistent for these weights;
  and the graph is small enough for all costs and priorities to stay below \<open>2\<^sup>2\<^sup>4\<close>,
  \<open>H\<close> being a bound of the Manhattan distance to the goal.
\<close>

definition integer_weights :: "Graph \<Rightarrow> nat \<Rightarrow> bool" where
  "integer_weights g W =
     (\<forall>u v. v \<in> set (neighbors g u) \<longrightarrow> (\<exists>n. cost g u v = Fin (real n) \<and> n \<le> W))"

definition consistent :: "Graph \<Rightarrow> (GridPos \<rightharpoonup> Obstacle) \<Rightarrow> GridPos \<Rightarrow> bool" where
  "consistent g obstacles goal =
     (\<forall>u v n. v \<in> set (neighbors g u) \<and> \<not> has_type obstacles v ''Indestructible'' \<and>
        cost g u v = Fin (real n) \<longrightarrow> manhattan goal u \<le> int n + manhattan goal v)"

definition small_enough :: "Graph \<Rightarrow> GridPos \<Rightarrow> GridPos \<Rightarrow> nat \<Rightarrow> nat \<Rightarrow> bool" where
  "small_enough g start goal W H =
     ((\<forall>v \<in> nodes g start. manhattan goal v \<le> int H) \<and>
      W * card (nodes g start) + H \<le> 16777216)"

text \<open>The invariant of the search loop that gives the least cost.\<close>

definition relaxed_on ::
  "Graph \<Rightarrow> (GridPos \<rightharpoonup> Obstacle) \<Rightarrow> search_state \<Rightarrow> GridPos \<Rightarrow> GridPos set \<Rightarrow> bool" where
  "relaxed_on g obstacles st u V =
     (\<forall>cu v. cost_so_far st u = Some cu \<and> v \<in> V \<and> v \<in> set (neighbors g u) \<and>
        \<not> has_type obstacles v ''Indestructible'' \<longrightarrow>
        (\<exists>cv. cost_so_far st v = Some cv \<and> cv \<le> cu + cost g u v))"

definition is_open :: "GridPos \<Rightarrow> search_state \<Rightarrow> GridPos \<Rightarrow> bool" where
  "is_open goal st u =
     (\<exists>cu p. cost_so_far st u = Some cu \<and> (p, u) \<in> set (frontier st) \<and>
        p \<le> cu + float_of_int (manhattan goal u))"

definition entries_above :: "search_state \<Rightarrow> bool" where
  "entries_above st =
     (\<forall>e \<in> set (frontier st). \<exists>c. cost_so_far st (snd e) = Some c \<and> c \<le> fst e)"

definition settled_except ::
  "Graph \<Rightarrow> (GridPos \<rightharpoonup> Obstacle) \<Rightarrow> GridPos \<Rightarrow> search_state \<Rightarrow> GridPos set \<Rightarrow> bool" where
  "settled_except g obstacles goal st X =
     (\<forall>u \<in> dom (cost_so_far st) - X. is_open goal st u \<or> relaxed_on g obstacles st u UNIV)"

definition exact_costs :: "nat \<Rightarrow> search_state \<Rightarrow> bool" where
  "exact_costs W st =
     (\<forall>v c. cost_so_far st v = Some c \<longrightarrow>
        (\<exists>k. c = Fin (real k) \<and> k + W \<le> W * card (dom (cost_so_far st))))"

definition chain_inv ::
  "Graph \<Rightarrow> (GridPos \<rightharpoonup> Obstacle) \<Rightarrow> GridPos \<Rightarrow> search_state \<Rightarrow> bool" where
  "chain_inv g obstacles start st =
     (\<forall>n u. n \<noteq> start \<and> came_from st n = Some u \<longrightarrow>
        n \<in> set (neighbors g u) \<and> \<not> has_type obstacles n ''Indestructible'' \<and>
        (\<exists>cu cn. cost_so_far st u = Some cu \<and> cost_so_far st n = Some cn \<and>
           cu + cost g u n \<le> cn))"

definition opt_inv ::
  "Graph \<Rightarrow> (GridPos \<rightharpoonup> Obstacle) \<Rightarrow> GridPos \<Rightarrow> GridPos \<Rightarrow> nat \<Rightarrow> search_state \<Rightarrow> bool" where
  "opt_inv g obstacles start goal W st =
     (tree_inv g start st \<and> exact_costs W st \<and> chain_inv g obstacles start st \<and>
      entries_above st)"

section \<open>Rounding\<close>

lemma round_even_of_int: "round_even (of_int n) = n"
  by (simp add: round_even_def)

lemma round_even_bounds: "\<lfloor>x\<rfloor> \<le> round_even x \<and> round_even x \<le> \<lfloor>x\<rfloor> + 1"
  by (simp add: round_even_def Let_def)

lemma round_even_mono:
  assumes "x \<le> y"
  shows "round_even x \<le> round_even y"
proof (cases "\<lfloor>x\<rfloor> = \<lfloor>y\<rfloor>")
  case True
  have "x - of_int \<lfloor>x\<rfloor> \<le> y - of_int \<lfloor>y\<rfloor>" using assms True by simp
  then show ?thesis unfolding round_even_def Let_def using True by auto
next
  case False
  with floor_mono [OF assms] have "\<lfloor>x\<rfloor> < \<lfloor>y\<rfloor>" by linarith
  then show ?thesis using round_even_bounds [of x] round_even_bounds [of y] by linarith
qed

lemma round_even_le: "x \<le> of_int n \<Longrightarrow> round_even x \<le> n"
  using round_even_mono [of x "of_int n"] by (simp add: round_even_of_int)

lemma round_even_ge: "of_int n \<le> x \<Longrightarrow> n \<le> round_even x"
  using round_even_mono [of "of_int n" x] by (simp add: round_even_of_int)

lemma two_powi_pos: "0 < (2 :: real) powi k"
  by simp

lemma two_powi_mono: "a \<le> b \<Longrightarrow> (2 :: real) powi a \<le> 2 powi b"
  by (rule power_int_increasing) simp_all

lemma two_powi_add: "(2 :: real) powi (a + b) = 2 powi a * 2 powi b"
  by (rule power_int_add) simp

lemma ulp_exp_ge: "- 149 \<le> ulp_exp x"
  by (simp add: ulp_exp_def)

lemma ulp_exp_upper: "\<bar>x\<bar> < 2 powi (ulp_exp x + 24)"
proof -
  define n where "n = \<lfloor>\<bar>x\<bar> * 2 ^ 149\<rfloor>"
  have n0: "0 \<le> n" by (simp add: n_def)
  have "n < 2 ^ nat (bitlen n)"
  proof (cases "n = 0")
    case True
    then show ?thesis by simp
  next
    case False
    with n0 have "0 < n" by simp
    from bitlen_bounds [OF this] show ?thesis by simp
  qed
  then have "n + 1 \<le> 2 ^ nat (bitlen n)" by simp
  then have "real_of_int (n + 1) \<le> real_of_int (2 ^ nat (bitlen n))"
    by (simp only: of_int_le_iff)
  then have "real_of_int n + 1 \<le> 2 ^ nat (bitlen n)" by simp
  moreover have "\<bar>x\<bar> * 2 ^ 149 < real_of_int n + 1" unfolding n_def by linarith
  ultimately have "\<bar>x\<bar> * 2 ^ 149 < 2 ^ nat (bitlen n)" by linarith
  also have "\<dots> = 2 powi bitlen n"
    using bitlen_nonneg [of n] by (simp add: power_int_nonneg_exp)
  finally have "\<bar>x\<bar> * 2 powi 149 < 2 powi bitlen n" by simp
  then have "\<bar>x\<bar> * 2 powi 149 * 2 powi (- 149) < 2 powi bitlen n * 2 powi (- 149)"
    by (simp only: mult_less_cancel_right_pos two_powi_pos)
  then have "\<bar>x\<bar> < 2 powi (bitlen n + (- 149))"
    by (simp only: two_powi_add) (simp add: power_int_minus)
  also have "\<dots> \<le> 2 powi (ulp_exp x + 24)"
    by (rule two_powi_mono) (simp add: ulp_exp_def n_def)
  finally show ?thesis .
qed

lemma ulp_exp_lower:
  assumes "- 149 < ulp_exp x"
  shows "2 powi (ulp_exp x + 23) \<le> \<bar>x\<bar>"
proof -
  define n where "n = \<lfloor>\<bar>x\<bar> * 2 ^ 149\<rfloor>"
  from assms have b: "ulp_exp x = bitlen n - 173" "24 < bitlen n"
    by (auto simp: ulp_exp_def n_def max_def split: if_splits)
  then have "0 < n" using bitlen_eq_zero_iff [of n] bitlen_nonneg [of n]
    by (cases "0 < n") auto
  from bitlen_bounds [OF this] have "2 ^ nat (bitlen n - 1) \<le> n" by simp
  then have "real_of_int (2 ^ nat (bitlen n - 1)) \<le> real_of_int n"
    by (simp only: of_int_le_iff)
  then have "2 ^ nat (bitlen n - 1) \<le> real_of_int n" by simp
  moreover have "real_of_int n \<le> \<bar>x\<bar> * 2 ^ 149" unfolding n_def by linarith
  ultimately have "2 ^ nat (bitlen n - 1) \<le> \<bar>x\<bar> * 2 ^ 149" by linarith
  moreover have "(2 :: real) ^ nat (bitlen n - 1) = 2 powi (bitlen n - 1)"
    using b(2) by (simp add: power_int_nonneg_exp)
  ultimately have "2 powi (bitlen n - 1) \<le> \<bar>x\<bar> * 2 powi 149" by simp
  then have "2 powi (bitlen n - 1) * 2 powi (- 149) \<le> \<bar>x\<bar> * 2 powi 149 * 2 powi (- 149)"
    by (simp only: mult_le_cancel_right_pos two_powi_pos)
  then have "2 powi (bitlen n - 1 + (- 149)) \<le> \<bar>x\<bar>"
    by (simp only: two_powi_add) (simp add: power_int_minus)
  moreover have "bitlen n - 1 + (- 149) = ulp_exp x + 23" using b(1) by simp
  ultimately show ?thesis by (simp add: add.commute)
qed

lemma two_powi_24: "(2 :: real) powi (k + 24) = 16777216 * 2 powi k"
  by (simp add: two_powi_add)

lemma two_powi_23: "(2 :: real) powi (k + 23) = 8388608 * 2 powi k"
  by (simp add: two_powi_add)

lemma rnd_upper: "rnd x \<le> 2 powi (ulp_exp x + 24)"
proof -
  let ?u = "(2 :: real) powi ulp_exp x"
  have "x \<le> 16777216 * ?u" using ulp_exp_upper [of x] by (simp add: two_powi_24)
  then have "x / ?u \<le> real_of_int 16777216" by (simp add: pos_divide_le_eq)
  then have "round_even (x / ?u) \<le> 16777216" by (rule round_even_le)
  then have "real_of_int (round_even (x / ?u)) \<le> 16777216" by linarith
  then have "real_of_int (round_even (x / ?u)) * ?u \<le> 16777216 * ?u"
    by (simp only: mult_le_cancel_right_pos two_powi_pos)
  then show ?thesis by (simp add: rnd_def two_powi_24)
qed

lemma rnd_lower: "- (2 powi (ulp_exp x + 24)) \<le> rnd x"
proof -
  let ?u = "(2 :: real) powi ulp_exp x"
  have "- (16777216 * ?u) \<le> x" using ulp_exp_upper [of x] by (simp add: two_powi_24)
  then have "real_of_int (- 16777216) \<le> x / ?u" by (simp add: pos_le_divide_eq)
  then have "- 16777216 \<le> round_even (x / ?u)" by (rule round_even_ge)
  then have "- 16777216 \<le> real_of_int (round_even (x / ?u))" by linarith
  then have "- 16777216 * ?u \<le> real_of_int (round_even (x / ?u)) * ?u"
    by (simp only: mult_le_cancel_right_pos two_powi_pos)
  then show ?thesis by (simp add: rnd_def two_powi_24)
qed

lemma rnd_pos_binade:
  assumes "- 149 < ulp_exp x" and "0 \<le> x"
  shows "2 powi (ulp_exp x + 23) \<le> rnd x"
proof -
  let ?u = "(2 :: real) powi ulp_exp x"
  have "8388608 * ?u \<le> x" using ulp_exp_lower [OF assms(1)] assms(2) by (simp add: two_powi_23)
  then have "real_of_int 8388608 \<le> x / ?u" by (simp add: pos_le_divide_eq)
  then have "8388608 \<le> round_even (x / ?u)" by (rule round_even_ge)
  then have "8388608 \<le> real_of_int (round_even (x / ?u))" by linarith
  then have "8388608 * ?u \<le> real_of_int (round_even (x / ?u)) * ?u"
    by (simp only: mult_le_cancel_right_pos two_powi_pos)
  then show ?thesis by (simp add: rnd_def two_powi_23)
qed

lemma rnd_neg_binade:
  assumes "- 149 < ulp_exp x" and "x \<le> 0"
  shows "rnd x \<le> - (2 powi (ulp_exp x + 23))"
proof -
  let ?u = "(2 :: real) powi ulp_exp x"
  have "x \<le> - (8388608 * ?u)" using ulp_exp_lower [OF assms(1)] assms(2) by (simp add: two_powi_23)
  then have "x / ?u \<le> real_of_int (- 8388608)" by (simp add: pos_divide_le_eq)
  then have "round_even (x / ?u) \<le> - 8388608" by (rule round_even_le)
  then have "real_of_int (round_even (x / ?u)) \<le> - 8388608" by linarith
  then have "real_of_int (round_even (x / ?u)) * ?u \<le> - 8388608 * ?u"
    by (simp only: mult_le_cancel_right_pos two_powi_pos)
  then show ?thesis by (simp add: rnd_def two_powi_23)
qed

lemma rnd_mono:
  assumes "x \<le> y"
  shows "rnd x \<le> rnd y"
proof -
  consider (eq) "ulp_exp x = ulp_exp y" | (lt) "ulp_exp x < ulp_exp y" | (gt) "ulp_exp y < ulp_exp x"
    by linarith
  then show ?thesis
  proof cases
    case eq
    let ?u = "(2 :: real) powi ulp_exp y"
    have "x / ?u \<le> y / ?u" using assms by (simp add: divide_right_mono)
    then have "round_even (x / ?u) \<le> round_even (y / ?u)" by (rule round_even_mono)
    then have "real_of_int (round_even (x / ?u)) \<le> real_of_int (round_even (y / ?u))" by simp
    then have "real_of_int (round_even (x / ?u)) * ?u \<le> real_of_int (round_even (y / ?u)) * ?u"
      by (simp only: mult_le_cancel_right_pos two_powi_pos)
    then show ?thesis by (simp add: rnd_def eq)
  next
    case lt
    with ulp_exp_ge [of x] have y1: "- 149 < ulp_exp y" by linarith
    have le: "(2 :: real) powi (ulp_exp x + 24) \<le> 2 powi (ulp_exp y + 23)"
      using lt by (intro two_powi_mono) simp
    from ulp_exp_upper [of x] le ulp_exp_lower [OF y1] have "\<bar>x\<bar> < \<bar>y\<bar>" by linarith
    with assms have "0 \<le> y" by linarith
    from rnd_pos_binade [OF y1 this] rnd_upper [of x] le show ?thesis by linarith
  next
    case gt
    with ulp_exp_ge [of y] have x1: "- 149 < ulp_exp x" by linarith
    have le: "(2 :: real) powi (ulp_exp y + 24) \<le> 2 powi (ulp_exp x + 23)"
      using gt by (intro two_powi_mono) simp
    from ulp_exp_upper [of y] le ulp_exp_lower [OF x1] have "\<bar>y\<bar> < \<bar>x\<bar>" by linarith
    with assms have "x \<le> 0" by linarith
    from rnd_neg_binade [OF x1 this] rnd_lower [of y] le show ?thesis by linarith
  qed
qed

lemma rnd_exact_less:
  assumes m: "\<bar>m\<bar> < 16777216" and k: "- 149 \<le> k"
  shows "rnd (real_of_int m * 2 powi k) = real_of_int m * 2 powi k"
proof -
  define x where "x = real_of_int m * 2 powi k"
  define k' where "k' = ulp_exp x"
  have absx: "\<bar>x\<bar> = real_of_int \<bar>m\<bar> * 2 powi k"
    by (simp add: x_def abs_mult)
  have "k' \<le> k"
  proof (cases "k' = - 149")
    case True
    with k show ?thesis by simp
  next
    case False
    with ulp_exp_ge [of x] have "- 149 < ulp_exp x" by (simp add: k'_def)
    from ulp_exp_lower [OF this] have "2 powi (k' + 23) \<le> \<bar>x\<bar>" by (simp add: k'_def)
    moreover have "\<bar>x\<bar> < 2 powi (k + 24)"
    proof -
      have "real_of_int \<bar>m\<bar> < 16777216" using m by linarith
      then have "real_of_int \<bar>m\<bar> * 2 powi k < 16777216 * 2 powi k"
        by (simp only: mult_less_cancel_right_pos two_powi_pos)
      then show ?thesis by (simp add: absx two_powi_24)
    qed
    ultimately have lt: "(2 :: real) powi (k' + 23) < 2 powi (k + 24)" by linarith
    show ?thesis
    proof (rule ccontr)
      assume "\<not> k' \<le> k"
      then have "k + 24 \<le> k' + 23" by simp
      from two_powi_mono [OF this] lt show False by linarith
    qed
  qed
  then have "(2 :: real) powi k = 2 powi (k - k') * 2 powi k'"
    using two_powi_add [of "k - k'" k'] by simp
  moreover have "(2 :: real) powi (k - k') = real_of_int (2 ^ nat (k - k'))"
    using \<open>k' \<le> k\<close> by (simp add: power_int_nonneg_exp)
  ultimately have xe: "x = real_of_int (m * 2 ^ nat (k - k')) * 2 powi k'"
    by (simp add: x_def)
  then have "x / 2 powi k' = real_of_int (m * 2 ^ nat (k - k'))" by simp
  then have "round_even (x / 2 powi k') = m * 2 ^ nat (k - k')"
    by (simp only: round_even_of_int)
  then have "rnd x = real_of_int (m * 2 ^ nat (k - k')) * 2 powi k'"
    by (simp add: rnd_def k'_def)
  also have "\<dots> = x" by (rule xe [symmetric])
  finally show ?thesis unfolding x_def .
qed

lemma rnd_exact:
  assumes m: "\<bar>m\<bar> \<le> 16777216" and k: "- 149 \<le> k"
  shows "rnd (real_of_int m * 2 powi k) = real_of_int m * 2 powi k"
proof (cases "\<bar>m\<bar> < 16777216")
  case True
  then show ?thesis using k by (rule rnd_exact_less)
next
  case False
  with m have "m = 16777216 \<or> m = - 16777216" by linarith
  then obtain m' :: int where m': "m = 2 * m'" "\<bar>m'\<bar> < 16777216" by auto
  have "real_of_int m * 2 powi k = real_of_int m' * 2 powi (k + 1)"
    by (simp add: m'(1) two_powi_add)
  moreover have "rnd (real_of_int m' * 2 powi (k + 1)) = real_of_int m' * 2 powi (k + 1)"
    using m'(2) k by (intro rnd_exact_less) simp_all
  ultimately show ?thesis by simp
qed

lemma rnd_int: "\<bar>m\<bar> \<le> 16777216 \<Longrightarrow> rnd (real_of_int m) = real_of_int m"
  using rnd_exact [of m 0] by simp

lemma rnd_form: "\<exists>m. \<bar>m\<bar> \<le> 16777216 \<and> rnd x = real_of_int m * 2 powi ulp_exp x"
proof -
  let ?u = "(2 :: real) powi ulp_exp x"
  let ?m = "round_even (x / ?u)"
  have "rnd x \<le> 16777216 * ?u" "- (16777216 * ?u) \<le> rnd x"
    using rnd_upper [of x] rnd_lower [of x] by (simp_all add: two_powi_24)
  then have "real_of_int ?m * ?u \<le> 16777216 * ?u" "- 16777216 * ?u \<le> real_of_int ?m * ?u"
    by (simp_all add: rnd_def)
  then have "real_of_int ?m \<le> 16777216" "- 16777216 \<le> real_of_int ?m"
    by (simp_all only: mult_le_cancel_right_pos two_powi_pos)
  then have "\<bar>?m\<bar> \<le> 16777216" by linarith
  then show ?thesis by (intro exI [of _ ?m]) (simp add: rnd_def)
qed

lemma rnd_idem: "rnd (rnd x) = rnd x"
proof -
  from rnd_form [of x] obtain m where m: "\<bar>m\<bar> \<le> 16777216"
    "rnd x = real_of_int m * 2 powi ulp_exp x" by blast
  from rnd_exact [OF m(1) ulp_exp_ge [of x]] m(2) show ?thesis by simp
qed

lemma rnd_zero: "rnd 0 = 0"
  using rnd_int [of 0] by simp

lemma rnd_nonneg: "0 \<le> x \<Longrightarrow> 0 \<le> rnd x"
  using rnd_mono [of 0 x] by (simp add: rnd_zero)

section \<open>Float values and their order\<close>

lemma to_float_cases:
  obtains (fin) "to_float x = Fin (rnd x)" and "- (2 ^ 128) < rnd x" and "rnd x < 2 ^ 128"
  | (pos) "to_float x = PosInf" and "2 ^ 128 \<le> rnd x"
  | (neg) "to_float x = NegInf" and "rnd x \<le> - (2 ^ 128)"
  unfolding to_float_def Let_def by (cases "2 ^ 128 \<le> rnd x"; cases "rnd x \<le> - (2 ^ 128)") auto

lemma ulp_exp_finite:
  assumes "- (2 ^ 128) < rnd x" and "rnd x < 2 ^ 128"
  shows "ulp_exp x \<le> 104"
proof (rule ccontr)
  assume "\<not> ulp_exp x \<le> 104"
  then have k: "105 \<le> ulp_exp x" "- 149 < ulp_exp x" by simp_all
  have "(2 :: real) powi 128 \<le> 2 powi (ulp_exp x + 23)"
    using k(1) by (intro two_powi_mono) simp
  then have big: "(2 :: real) ^ 128 \<le> 2 powi (ulp_exp x + 23)" by simp
  show False
  proof (cases "0 \<le> x")
    case True
    from rnd_pos_binade [OF k(2) True] big assms(2) show False by linarith
  next
    case False
    then have "x \<le> 0" by simp
    from rnd_neg_binade [OF k(2) this] big assms(1) show False by linarith
  qed
qed

lemma to_float_in_values: "to_float x \<in> float_values"
proof (cases x rule: to_float_cases)
  case fin
  from rnd_form [of x] obtain m where m: "\<bar>m\<bar> \<le> 16777216"
    "rnd x = real_of_int m * 2 powi ulp_exp x" by blast
  have "(m, ulp_exp x) \<in> {- 16777216 .. 16777216} \<times> {- 149 .. 104}"
    using m(1) ulp_exp_ge [of x] ulp_exp_finite [OF fin(2,3)] by auto
  then have "(\<lambda>(m, k). Fin (real_of_int m * 2 powi k)) (m, ulp_exp x) \<in>
      (\<lambda>(m, k). Fin (real_of_int m * 2 powi k)) ` ({- 16777216 .. 16777216} \<times> {- 149 .. 104})"
    by (rule imageI)
  then show ?thesis using fin(1) m(2) by (simp add: float_values_def)
next
  case pos
  then show ?thesis by (simp add: float_values_def)
next
  case neg
  then show ?thesis by (simp add: float_values_def)
qed

lemma plus_in_values: "(x :: cfloat) + y \<in> float_values"
proof (cases "\<exists>a b. x = Fin a \<and> y = Fin b")
  case True
  then show ?thesis using to_float_in_values by auto
next
  case False
  then have "x + y \<in> {PosInf, NegInf, NaN}"
    by (cases x; cases y) auto
  then show ?thesis by (auto simp: float_values_def)
qed

lemma zero_in_values: "Fin 0 \<in> float_values"
  using to_float_in_values [of 0] by (simp add: to_float_def rnd_zero)

lemma finite_float_values: "finite float_values"
  by (simp add: float_values_def)

lemma less_cfloat_trans: "(a :: cfloat) < b \<Longrightarrow> b < c \<Longrightarrow> a < c"
  by (cases a; cases b; cases c) auto

lemma less_cfloat_irrefl: "\<not> (a :: cfloat) < a"
  by (cases a) auto

lemma le_cfloat_trans: "(a :: cfloat) \<le> b \<Longrightarrow> b \<le> c \<Longrightarrow> a \<le> c"
  by (cases a; cases b; cases c) auto

lemma less_le_cfloat_trans: "(a :: cfloat) < b \<Longrightarrow> b \<le> c \<Longrightarrow> a < c"
  by (cases a; cases b; cases c) auto

lemma le_less_cfloat_trans: "(a :: cfloat) \<le> b \<Longrightarrow> b < c \<Longrightarrow> a < c"
  by (cases a; cases b; cases c) auto

lemma le_cfloat_not_less: "(a :: cfloat) \<le> b \<Longrightarrow> \<not> b < a"
  by (cases a; cases b) auto

lemma less_cfloat_le: "(a :: cfloat) < b \<Longrightarrow> a \<le> b"
  by (cases a; cases b) auto

lemma rank_less:
  assumes "x \<in> float_values" and "x < y"
  shows "rank (Some x) < rank (Some y)"
proof -
  have "{f \<in> float_values. f < x} \<subset> {f \<in> float_values. f < y}"
    using assms less_cfloat_irrefl [of x] by (auto intro: less_cfloat_trans)
  moreover have "finite {f \<in> float_values. f < y}"
    using finite_float_values by simp
  ultimately show ?thesis unfolding rank_def by (simp add: psubset_card_mono)
qed

lemma rank_less_None: "rank (Some x) < rank None"
proof -
  have "card {f \<in> float_values. f < x} \<le> card float_values"
    by (rule card_mono [OF finite_float_values]) auto
  then show ?thesis by (simp add: rank_def)
qed

section \<open>Costs that are not negative\<close>

lemma nonneg_float_zero: "nonneg_float (Fin 0)"
  by (simp add: nonneg_float_def rnd_zero)

lemma nonneg_float_le: "nonneg_float c \<Longrightarrow> Fin 0 \<le> c"
  by (auto simp: nonneg_float_def)

lemma nonneg_to_float: "0 \<le> x \<Longrightarrow> nonneg_float (to_float x)"
proof (cases x rule: to_float_cases)
  case fin
  assume "0 \<le> x"
  then show ?thesis using fin(1) rnd_nonneg [of x] by (simp add: nonneg_float_def rnd_idem)
next
  case pos
  then show ?thesis by (simp add: nonneg_float_def)
next
  case neg
  assume "0 \<le> x"
  with rnd_nonneg [of x] neg(2) show ?thesis by simp
qed

lemma nonneg_add:
  assumes c: "nonneg_float c" and w: "Fin 0 \<le> w"
  shows "nonneg_float (c + w) \<and> c \<le> c + w"
proof (cases c)
  case (Fin a)
  with c have a: "0 \<le> a" "rnd a = a" by (simp_all add: nonneg_float_def)
  show ?thesis
  proof (cases w)
    case b: (Fin b)
    with w have b0: "0 \<le> b" by simp
    have le: "a \<le> rnd (a + b)" using rnd_mono [of a "a + b"] a(2) b0 by simp
    have "nonneg_float (to_float (a + b))" using a(1) b0 by (intro nonneg_to_float) simp
    moreover have "Fin a \<le> to_float (a + b)"
    proof (cases "a + b" rule: to_float_cases)
      case fin
      then show ?thesis using le by simp
    next
      case pos
      then show ?thesis by simp
    next
      case neg
      with le a(1) show ?thesis by simp
    qed
    ultimately show ?thesis by (simp add: Fin b)
  next
    case PosInf
    then show ?thesis by (simp add: Fin nonneg_float_def)
  next
    case NegInf
    with w show ?thesis by simp
  next
    case NaN
    with w show ?thesis by simp
  qed
next
  case PosInf
  with w show ?thesis by (cases w) (simp_all add: nonneg_float_def)
next
  case NegInf
  with c show ?thesis by (simp add: nonneg_float_def)
next
  case NaN
  with c show ?thesis by (simp add: nonneg_float_def)
qed

lemma to_float_exact:
  assumes "rnd x = x" and "\<bar>x\<bar> \<le> 16777216"
  shows "to_float x = Fin x"
proof -
  have "\<not> 2 ^ 128 \<le> x" "\<not> x \<le> - (2 ^ 128)" using assms(2) by simp_all
  then show ?thesis by (simp add: to_float_def assms(1))
qed

lemma float_of_int_exact:
  assumes "\<bar>i\<bar> \<le> 16777216"
  shows "float_of_int i = Fin (real_of_int i)"
proof -
  have "\<bar>real_of_int i\<bar> \<le> 16777216" using assms by linarith
  from to_float_exact [OF rnd_int [OF assms] this] show ?thesis by (simp add: float_of_int_def)
qed

lemma tenth_value: "tenth = Fin (13421773 / 134217728)"
  unfolding tenth_def by code_simp

lemma rnd_neg_nine_tenths: "rnd (- (9 / 10)) = - (7549747 / 8388608)"
  by code_simp

section \<open>One neighbor\<close>

lemma float_of_int_attack: "float_of_int ENEMY_ATTACK = Fin 10"
  using float_of_int_exact [of 10] by (simp add: ENEMY_ATTACK_def)

text \<open>The loop body charges what the rule of the specification says.\<close>

lemma new_cost_of_charged:
  "new_cost_of graph obstacles csf current neighbor =
     charged graph obstacles (subscript csf current) current neighbor"
  by (auto simp: new_cost_of_def charged_def has_type_def Let_def float_of_int_attack
      split: option.splits)

lemma new_cost_in_values:
  "new_cost_of g obstacles csf current n = Some nc \<Longrightarrow> nc \<in> float_values"
  by (auto simp: new_cost_of_def Let_def plus_in_values split: option.splits if_splits)

lemma visit_neighbor_cases:
  assumes "heuristic goal n = Inr h"
  obtains (same) "visit_neighbor g goal obstacles current st n = Inr st"
  | (better) nc where "new_cost_of g obstacles (cost_so_far st) current n = Some nc"
      and "\<forall>cn. cost_so_far st n = Some cn \<longrightarrow> nc < cn"
      and "visit_neighbor g goal obstacles current st n =
        Inr (st\<lparr>cost_so_far := (cost_so_far st)(n \<mapsto> nc),
                frontier := frontier st @ [(nc + h, n)],
                came_from := (came_from st)(n \<mapsto> current)\<rparr>)"
proof (cases "new_cost_of g obstacles (cost_so_far st) current n")
  case None
  then show ?thesis by (intro same) (simp add: visit_neighbor_def)
next
  case (Some nc)
  show ?thesis
  proof (cases "cost_so_far st n")
    case None
    with Some assms show ?thesis
      by (intro better [of nc]) (simp_all add: visit_neighbor_def)
  next
    case cn: (Some cn)
    show ?thesis
    proof (cases "nc < cn")
      case True
      with Some cn assms show ?thesis
        by (intro better [of nc]) (simp_all add: visit_neighbor_def subscript_def)
    next
      case False
      with Some cn assms show ?thesis
        by (intro same) (simp add: visit_neighbor_def subscript_def)
    qed
  qed
qed

section \<open>Termination of the search loop\<close>

lemma neighbors_dom: "n \<in> set (neighbors g u) \<Longrightarrow> u \<in> dom (edges g)"
  by (cases "edges g u") (auto simp: neighbors_def)

lemma neighbor_in_nodes: "n \<in> set (neighbors g u) \<Longrightarrow> n \<in> nodes g start"
  using neighbors_dom [of n g u] unfolding nodes_def by blast

lemma finite_nodes: "finite (dom (edges g)) \<Longrightarrow> finite (nodes g start)"
  by (simp add: nodes_def)

lemma record_progress:
  assumes fin: "finite (dom (edges g))" and n: "n \<in> nodes g start" and nc: "nc \<in> float_values"
    and lt: "\<forall>cn. cost_so_far st n = Some cn \<longrightarrow> nc < cn"
    and st': "cost_so_far st' = (cost_so_far st)(n \<mapsto> nc)"
  shows "rank_sum g start st' < rank_sum g start st"
proof -
  have 1: "rank (cost_so_far st' n) < rank (cost_so_far st n)"
  proof (cases "cost_so_far st n")
    case None
    then show ?thesis using rank_less_None [of nc] by (simp add: st')
  next
    case (Some cn)
    with lt have "nc < cn" by simp
    from rank_less [OF nc this] Some show ?thesis by (simp add: st')
  qed
  have 2: "\<forall>m \<in> nodes g start. rank (cost_so_far st' m) \<le> rank (cost_so_far st m)"
  proof
    fix m assume "m \<in> nodes g start"
    show "rank (cost_so_far st' m) \<le> rank (cost_so_far st m)"
    proof (cases "m = n")
      case True
      with 1 show ?thesis by simp
    next
      case False
      then show ?thesis by (simp add: st')
    qed
  qed
  show ?thesis unfolding rank_sum_def
    using finite_nodes [OF fin, of start] 2 n 1 by (intro sum_strict_mono_ex1) auto
qed

lemma basic_inv_record:
  assumes b: "basic_inv g start st" and n: "n \<in> nodes g start" and nc: "nc \<in> float_values"
  shows "basic_inv g start
    (st\<lparr>cost_so_far := (cost_so_far st)(n \<mapsto> nc), frontier := frontier st @ [(p, n)],
        came_from := (came_from st)(n \<mapsto> current)\<rparr>)"
  using assms unfolding basic_inv_def by auto

lemma set_remove_nth_subset: "set (take i xs @ drop (Suc i) xs) \<subseteq> set xs"
  using set_take_subset [of i xs] set_drop_subset [of "Suc i" xs] by auto

lemma pop_at_fields:
  "cost_so_far (pop_at i st) = cost_so_far st" "came_from (pop_at i st) = came_from st"
  "i < length (frontier st) \<Longrightarrow> length (frontier (pop_at i st)) < length (frontier st)"
  by (auto simp: pop_at_def)

lemma basic_inv_pop: "basic_inv g start st \<Longrightarrow> basic_inv g start (pop_at i st)"
  using set_remove_nth_subset [of i "frontier st"] unfolding basic_inv_def pop_at_def by auto

lemma basic_inv_init: "basic_inv g start (init_state start)"
  using zero_in_values by (auto simp: basic_inv_def init_state_def nodes_def split: if_splits)

text \<open>The subscript on \<open>cost_so_far\<close> only reads cells that were recorded.\<close>

lemma frontier_recorded:
  assumes "basic_inv g start st" and "i < length (frontier st)"
  shows "\<exists>c. cost_so_far st (snd (frontier st ! i)) = Some c"
  using assms nth_mem [of i "frontier st"] unfolding basic_inv_def by blast

lemma fold_Inl:
  "fold (\<lambda>neighbor r. case r of Inl e \<Rightarrow> Inl e | Inr s \<Rightarrow> f s neighbor) vs (Inl e) = Inl e"
  by (induction vs) simp_all

lemma fold_visit:
  assumes fin: "finite (dom (edges g))" and hd: "heuristic_defined g goal"
    and visit: "\<And>s c n s'. I s \<Longrightarrow> cost_so_far s current = Some c \<Longrightarrow>
      n \<in> set (neighbors g current) \<Longrightarrow>
      visit_neighbor g goal obstacles current s n = Inr s' \<Longrightarrow> I s'"
    and sub: "set vs \<subseteq> set (neighbors g current)"
    and I: "I s" and cur: "cost_so_far s current = Some c"
  shows "\<exists>s'. fold (\<lambda>neighbor r. case r of Inl e \<Rightarrow> Inl e
                    | Inr s \<Rightarrow> visit_neighbor g goal obstacles current s neighbor) vs (Inr s)
             = Inr s' \<and> I s' \<and>
           (s' = s \<or> rank_sum g start s' < rank_sum g start s)"
  using sub I cur
proof (induction vs arbitrary: s c)
  case Nil
  then show ?case by simp
next
  case (Cons v vs)
  from Cons.prems(1) have v: "v \<in> set (neighbors g current)"
    and vs: "set vs \<subseteq> set (neighbors g current)" by simp_all
  from hd v obtain h where h: "heuristic goal v = Inr h"
    unfolding heuristic_defined_def by blast
  have "\<exists>s1 c1. visit_neighbor g goal obstacles current s v = Inr s1 \<and>
      cost_so_far s1 current = Some c1 \<and> (s1 = s \<or> rank_sum g start s1 < rank_sum g start s)"
    using h
  proof (cases rule: visit_neighbor_cases
      [where g = g and obstacles = obstacles and current = current and st = s])
    case same
    with Cons.prems(3) show ?thesis by simp
  next
    case (better nc)
    let ?s1 = "s\<lparr>cost_so_far := (cost_so_far s)(v \<mapsto> nc), frontier := frontier s @ [(nc + h, v)],
                came_from := (came_from s)(v \<mapsto> current)\<rparr>"
    have "rank_sum g start ?s1 < rank_sum g start s"
      by (rule record_progress [OF fin neighbor_in_nodes [OF v] new_cost_in_values [OF better(1)]
            better(2)]) simp
    moreover have "\<exists>c1. cost_so_far ?s1 current = Some c1" using Cons.prems(3) by simp
    ultimately show ?thesis using better(3) by auto
  qed
  then obtain s1 c1 where s1: "visit_neighbor g goal obstacles current s v = Inr s1"
    "cost_so_far s1 current = Some c1" "s1 = s \<or> rank_sum g start s1 < rank_sum g start s"
    by blast
  from visit [OF Cons.prems(2,3) v s1(1)] have I1: "I s1" .
  from Cons.IH [OF vs I1 s1(2)] obtain s' where
    "fold (\<lambda>neighbor r. case r of Inl e \<Rightarrow> Inl e
                    | Inr s \<Rightarrow> visit_neighbor g goal obstacles current s neighbor) vs (Inr s1)
       = Inr s'" "I s'" "s' = s1 \<or> rank_sum g start s' < rank_sum g start s1"
    by blast
  with s1(1,3) show ?case by auto
qed

lemma a_star_loop_total:
  assumes pick: "picks_entry pick" and fin: "finite (dom (edges g))"
    and hd: "heuristic_defined g goal"
    and base: "\<And>s. I s \<Longrightarrow> basic_inv g start s"
    and pop: "\<And>s i. I s \<Longrightarrow> I (pop_at i s)"
    and visit: "\<And>s current c n s'. I s \<Longrightarrow> cost_so_far s current = Some c \<Longrightarrow>
      n \<in> set (neighbors g current) \<Longrightarrow>
      visit_neighbor g goal obstacles current s n = Inr s' \<Longrightarrow> I s'"
    and I0: "I st"
  shows "\<exists>r. a_star_loop pick g goal obstacles st = Some (Inr r) \<and> I r"
proof -
  define R where "R = inv_image (less_than <*lex*> less_than)
    (\<lambda>s. (rank_sum g start s, length (frontier s)))"
  have wfR: "wf R" unfolding R_def by (intro wf_inv_image wf_lex_prod wf_less_than)
  from I0 show ?thesis
  proof (induction st rule: wf_induct_rule [OF wfR])
    case (1 st)
    show ?case
    proof (cases "frontier st = []")
      case True
      with 1(2) show ?thesis by (subst a_star_loop.simps) simp
    next
      case False
      define i where "i = pick (pops st) (frontier st)"
      define current where "current = snd (frontier st ! i)"
      from pick False have i: "i < length (frontier st)" unfolding picks_entry_def i_def by blast
      show ?thesis
      proof (cases "current = goal")
        case True
        with False pop [OF 1(2), of i] show ?thesis
          by (subst a_star_loop.simps) (simp add: Let_def i_def current_def)
      next
        case ng: False
        let ?s1 = "pop_at i st"
        from frontier_recorded [OF base [OF 1(2)] i] obtain c where
          c: "cost_so_far ?s1 current = Some c" by (auto simp: current_def pop_at_fields)
        have I1: "I ?s1" by (rule pop [OF 1(2)])
        have "\<exists>s'. fold (\<lambda>neighbor r. case r of Inl e \<Rightarrow> Inl e
                    | Inr s \<Rightarrow> visit_neighbor g goal obstacles current s neighbor)
                 (neighbors g current) (Inr ?s1) = Inr s' \<and> I s' \<and>
               (s' = ?s1 \<or> rank_sum g start s' < rank_sum g start ?s1)"
          by (rule fold_visit [where I = I, OF fin hd _ subset_refl I1 c]) (erule visit, assumption+)
        then obtain s2 where s2: "expand g goal obstacles current ?s1 = Inr s2" "I s2"
          "s2 = ?s1 \<or> rank_sum g start s2 < rank_sum g start ?s1"
          unfolding expand_def by blast
        have same: "rank_sum g start ?s1 = rank_sum g start st"
          by (simp add: rank_sum_def pop_at_fields)
        have "(s2, st) \<in> R"
        proof (cases "s2 = ?s1")
          case True
          with same pop_at_fields(3) [OF i] show ?thesis by (simp add: R_def)
        next
          case False
          with s2(3) same show ?thesis by (simp add: R_def)
        qed
        from 1(1) [OF this s2(2)] obtain r where
          r: "a_star_loop pick g goal obstacles s2 = Some (Inr r)" "I r" by blast
        have "a_star_loop pick g goal obstacles st = a_star_loop pick g goal obstacles s2"
          using False ng s2(1) by (subst a_star_loop.simps) (simp add: Let_def i_def current_def)
        with r show ?thesis by simp
      qed
    qed
  qed
qed

section \<open>The dynamic cost override\<close>

lemma visit_neighbor_Inr:
  assumes "visit_neighbor g goal obstacles current st n = Inr s'"
  obtains (same) "s' = st"
  | (better) nc h where "new_cost_of g obstacles (cost_so_far st) current n = Some nc"
      and "\<forall>cn. cost_so_far st n = Some cn \<longrightarrow> nc < cn"
      and "heuristic goal n = Inr h"
      and "s' = st\<lparr>cost_so_far := (cost_so_far st)(n \<mapsto> nc),
                   frontier := frontier st @ [(nc + h, n)],
                   came_from := (came_from st)(n \<mapsto> current)\<rparr>"
proof (cases "heuristic goal n")
  case (Inl e)
  with assms have "s' = st"
    by (auto simp: visit_neighbor_def split: option.splits if_splits)
  then show ?thesis by (rule same)
next
  case (Inr h)
  then show ?thesis
  proof (cases rule: visit_neighbor_cases
      [where g = g and obstacles = obstacles and current = current and st = st])
    case same': same
    with assms have "s' = st" by simp
    then show ?thesis by (rule same)
  next
    case b: (better nc)
    with assms have "s' = st\<lparr>cost_so_far := (cost_so_far st)(n \<mapsto> nc),
                   frontier := frontier st @ [(nc + h, n)],
                   came_from := (came_from st)(n \<mapsto> current)\<rparr>" by simp
    with b(1,2) Inr show ?thesis by (intro better [of nc h]) simp_all
  qed
qed

lemma charged_inv_init: "charged_inv g obstacles start (init_state start)"
  using basic_inv_init [of g start]
  by (auto simp: charged_inv_def init_state_def split: if_splits)

lemma charged_inv_pop:
  "charged_inv g obstacles start st \<Longrightarrow> charged_inv g obstacles start (pop_at i st)"
  using basic_inv_pop [of g start st i] by (simp add: charged_inv_def pop_at_fields)

lemma charged_inv_visit:
  assumes inv: "charged_inv g obstacles start st"
    and cur: "cost_so_far st current = Some c" and nb: "n \<in> set (neighbors g current)"
    and vis: "visit_neighbor g goal obstacles current st n = Inr s'"
  shows "charged_inv g obstacles start s'"
  using vis
proof (cases rule: visit_neighbor_Inr)
  case same
  with inv show ?thesis by simp
next
  case (better nc h)
  from inv have b: "basic_inv g start st" by (simp add: charged_inv_def)
  have b': "basic_inv g start s'"
    unfolding better(4)
    by (rule basic_inv_record [OF b neighbor_in_nodes [OF nb] new_cost_in_values [OF better(1)]])
  have ch: "charged g obstacles c current n = Some nc"
    using better(1) cur by (simp add: new_cost_of_charged subscript_def)
  have "m = start \<and> u = start \<and> cost_so_far s' m = Some (Fin 0) \<or>
         m \<in> set (neighbors g u) \<and>
         (\<exists>c cu x. cost_so_far s' u = Some cu \<and> (cu = c \<or> cu < c) \<and>
            cost_so_far s' m = Some x \<and> charged g obstacles c u m = Some x)"
    if m: "came_from s' m = Some u" for m u
  proof (cases "m = n")
    case True
    with m have u: "u = current" by (simp add: better(4))
    have "\<exists>cu. cost_so_far s' current = Some cu \<and> (cu = c \<or> cu < c)"
    proof (cases "current = n")
      case True
      with better(2) cur have "nc < c" by simp
      with True show ?thesis by (simp add: better(4))
    next
      case False
      with cur show ?thesis by (simp add: better(4))
    qed
    moreover have "cost_so_far s' n = Some nc" by (simp add: better(4))
    ultimately show ?thesis using True u nb ch by blast
  next
    case False
    with m have old: "came_from st m = Some u" by (simp add: better(4))
    have same_m: "cost_so_far s' m = cost_so_far st m" using False by (simp add: better(4))
    from inv old consider
      (root) "m = start" "u = start" "cost_so_far st m = Some (Fin 0)"
      | (edge) c0 cu x where "m \<in> set (neighbors g u)" "cost_so_far st u = Some cu"
          "cu = c0 \<or> cu < c0" "cost_so_far st m = Some x" "charged g obstacles c0 u m = Some x"
      unfolding charged_inv_def by blast
    then show ?thesis
    proof cases
      case root
      with same_m show ?thesis by simp
    next
      case edge
      have "\<exists>cu'. cost_so_far s' u = Some cu' \<and> (cu' = c0 \<or> cu' < c0)"
      proof (cases "u = n")
        case True
        with better(2) edge(2) have "nc < cu" by simp
        with edge(3) have "nc < c0" by (auto intro: less_cfloat_trans)
        with True show ?thesis by (simp add: better(4))
      next
        case False
        with edge(2,3) show ?thesis by (simp add: better(4))
      qed
      with edge(1,4,5) same_m show ?thesis by auto
    qed
  qed
  with b' show ?thesis unfolding charged_inv_def by blast
qed

lemma search_charged:
  assumes "picks_entry pick" and "finite (dom (edges graph))" and "heuristic_defined graph goal"
  shows "\<exists>st. a_star_search pick graph start goal obstacles =
      Some (Inr (came_from st, cost_so_far st)) \<and> charged_inv graph obstacles start st"
proof -
  have "\<exists>r. a_star_loop pick graph goal obstacles (init_state start) = Some (Inr r) \<and>
      charged_inv graph obstacles start r"
  proof (rule a_star_loop_total [where I = "charged_inv graph obstacles start" and start = start,
        OF assms])
    show "\<And>s. charged_inv graph obstacles start s \<Longrightarrow> basic_inv graph start s"
      by (simp add: charged_inv_def)
    show "\<And>s i. charged_inv graph obstacles start s \<Longrightarrow>
        charged_inv graph obstacles start (pop_at i s)"
      by (rule charged_inv_pop)
    show "\<And>s current c n s'. charged_inv graph obstacles start s \<Longrightarrow>
        cost_so_far s current = Some c \<Longrightarrow> n \<in> set (neighbors graph current) \<Longrightarrow>
        visit_neighbor graph goal obstacles current s n = Inr s' \<Longrightarrow>
        charged_inv graph obstacles start s'"
      by (rule charged_inv_visit)
    show "charged_inv graph obstacles start (init_state start)"
      by (rule charged_inv_init)
  qed
  then show ?thesis by (auto simp: a_star_search_def)
qed

text \<open>
  C1 as amended. \<open>ENEMY_ATTACK\<close> is 10. For every candidate neighbor the loop body
  computes the new cost by the rule \<open>charged\<close>: none on an Indestructible obstacle (the
  edge is skipped whatever the graph says); on a Destructible obstacle of health \<open>h\<close> the
  \<^verbatim>\<open>float\<close> value of \<open>(c + 1.0) + ceil(h / 10) * 0.1\<close>, where \<open>c\<close> is the cost of the
  current cell, each operation rounded; otherwise \<open>c\<close> plus the weight the graph has for
  the edge. On every finite graph on which \<^verbatim>\<open>heuristic\<close> does not overflow the search
  returns, and every cell it recorded, the start apart while it keeps its first entry, was
  recorded from a cell \<open>u\<close> of which it is a neighbor, holds no Indestructible obstacle,
  and has the cost that this rule gives for a cost \<open>c\<close> that \<open>u\<close> had: the recorded cost of
  \<open>u\<close> or one above it.
\<close>

theorem dynamic_cost_override:
  assumes "picks_entry pick" and "finite (dom (edges graph))" and "heuristic_defined graph goal"
  shows "ENEMY_ATTACK = 10 \<and>
    new_cost_of graph obstacles (cost_so_far st) current neighbor =
      charged graph obstacles (subscript (cost_so_far st) current) current neighbor \<and>
    (\<exists>cf csf. a_star_search pick graph start goal obstacles = Some (Inr (cf, csf)) \<and>
       (\<forall>n u. cf n = Some u \<longrightarrow>
          n = start \<and> u = start \<and> csf n = Some (Fin 0) \<or>
          n \<in> set (neighbors graph u) \<and> \<not> has_type obstacles n ''Indestructible'' \<and>
          (\<exists>c cu x. csf u = Some cu \<and> (cu = c \<or> cu < c) \<and> csf n = Some x \<and>
             charged graph obstacles c u n = Some x)))"
proof -
  from search_charged [OF assms, of start obstacles] obtain r where
    r: "a_star_search pick graph start goal obstacles = Some (Inr (came_from r, cost_so_far r))"
    "charged_inv graph obstacles start r" by blast
  have "n = start \<and> u = start \<and> cost_so_far r n = Some (Fin 0) \<or>
          n \<in> set (neighbors graph u) \<and> \<not> has_type obstacles n ''Indestructible'' \<and>
          (\<exists>c cu x. cost_so_far r u = Some cu \<and> (cu = c \<or> cu < c) \<and> cost_so_far r n = Some x \<and>
             charged graph obstacles c u n = Some x)"
    if "came_from r n = Some u" for n u
  proof -
    from r(2) that consider
      (root) "n = start" "u = start" "cost_so_far r n = Some (Fin 0)"
      | (edge) c0 cu x where "n \<in> set (neighbors graph u)" "cost_so_far r u = Some cu"
          "cu = c0 \<or> cu < c0" "cost_so_far r n = Some x" "charged graph obstacles c0 u n = Some x"
      unfolding charged_inv_def by blast
    then show ?thesis
    proof cases
      case root
      then show ?thesis by simp
    next
      case edge
      from edge(5) have "\<not> has_type obstacles n ''Indestructible''"
        by (auto simp: charged_def split: if_splits)
      with edge show ?thesis by blast
    qed
  qed
  with r(1) show ?thesis by (auto simp: ENEMY_ATTACK_def new_cost_of_charged)
qed

lemma first_min_idx_less: "fr \<noteq> [] \<Longrightarrow> first_min_idx fr < length fr"
  by (induction fr rule: first_min_idx.induct) (auto simp: Let_def)

lemma picks_entry_first_min: "picks_entry first_min"
  by (simp add: picks_entry_def first_min_def first_min_idx_less)

lemma stale_graph_finite: "finite (dom (edges stale_graph))"
proof -
  have "dom (edges stale_graph) \<subseteq> {(0, 0), (1, 0)}"
    by (auto simp: stale_graph_def add_edge_def empty_graph_def split: if_splits)
  then show ?thesis by (rule finite_subset) simp
qed

lemma stale_graph_heuristic: "heuristic_defined stale_graph (1, 1)"
  by (auto simp: heuristic_defined_def stale_graph_def add_edge_def empty_graph_def neighbors_def
      heuristic_def int_range_def INT_MIN_def INT_MAX_def Let_def split: if_splits)

lemma stale_search:
  "case a_star_search first_min stale_graph (0, 0) (1, 1) stale_obstacles of
     Some (Inr (cf, csf)) \<Rightarrow>
       cf (1, 0) = Some (0, 0) \<and> csf (0, 0) = Some (Fin 0) \<and>
       csf (1, 0) = Some (Fin (9227469 / 8388608)) \<and>
       cf (0, 1) = None \<and> csf (0, 1) = None \<and>
       cf (1, 1) = Some (1, 0) \<and> csf (1, 1) = Some (Fin (4404019 / 2097152))
   | _ \<Rightarrow> False"
  by code_simp

lemma stale_charges:
  "charged stale_graph stale_obstacles (Fin 0) (0, 0) (1, 0) = Some (Fin (9227469 / 8388608)) \<and>
   charged stale_graph stale_obstacles (Fin 0) (0, 0) (0, 1) = None \<and>
   cost stale_graph (0, 0) (1, 0) = Fin 10 \<and> cost stale_graph (0, 0) (0, 1) = Fin 1 \<and>
   charged stale_graph stale_obstacles (Fin (9227469 / 8388608)) (1, 0) (1, 1) =
     Some (Fin (9227469 / 8388608) + Fin 1) \<and>
   Fin (9227469 / 8388608) + Fin 1 = Fin (4404019 / 2097152)"
  by code_simp

lemma far_search:
  "case a_star_search first_min far_graph (0, 0) (2, 0) far_obstacles of
     Some (Inr (cf, csf)) \<Rightarrow>
       cf (2, 0) = Some (1, 0) \<and> csf (1, 0) = Some (Fin 16777216) \<and>
       csf (2, 0) = Some (Fin 16777216)
   | _ \<Rightarrow> False"
  by code_simp

lemma far_step:
  "Fin 1 + fceil (float_of_int 5 / Fin 10) * tenth = Fin (9227469 / 8388608) \<and>
   Fin 16777216 + Fin (9227469 / 8388608) = Fin 16777218"
  by code_simp

theorem dynamic_cost_override_witness:
  "\<exists>cf csf. a_star_search first_min stale_graph (0, 0) (1, 1) stale_obstacles =
       Some (Inr (cf, csf)) \<and>
     cf (1, 0) = Some (0, 0) \<and> csf (0, 0) = Some (Fin 0) \<and>
     csf (1, 0) = Some (Fin (9227469 / 8388608)) \<and>
     charged stale_graph stale_obstacles (Fin 0) (0, 0) (1, 0) = Some (Fin (9227469 / 8388608)) \<and>
     cost stale_graph (0, 0) (1, 0) = Fin 10 \<and>
     cf (0, 1) = None \<and> csf (0, 1) = None \<and>
     charged stale_graph stale_obstacles (Fin 0) (0, 0) (0, 1) = None \<and>
     cost stale_graph (0, 0) (0, 1) = Fin 1 \<and>
     cf (1, 1) = Some (1, 0) \<and> csf (1, 1) = Some (Fin (4404019 / 2097152)) \<and>
     charged stale_graph stale_obstacles (Fin (9227469 / 8388608)) (1, 0) (1, 1) =
       Some (Fin (4404019 / 2097152)) \<and>
     (\<exists>c cu. csf (1, 0) = Some cu \<and> (cu = c \<or> cu < c) \<and>
        charged stale_graph stale_obstacles c (1, 0) (1, 1) = csf (1, 1)) \<and>
     new_cost_of stale_graph stale_obstacles (cost_so_far (init_state (0, 0))) (0, 0) (1, 0) =
       Some (Fin (9227469 / 8388608))"
proof -
  from dynamic_cost_override [where st = "init_state (0, 0)" and current = "(0, 0)"
      and neighbor = "(1, 0)" and start = "(0, 0)" and obstacles = stale_obstacles,
      OF picks_entry_first_min stale_graph_finite stale_graph_heuristic]
  obtain cf csf where nc: "new_cost_of stale_graph stale_obstacles
        (cost_so_far (init_state (0, 0))) (0, 0) (1, 0) =
      charged stale_graph stale_obstacles (subscript (cost_so_far (init_state (0, 0))) (0, 0))
        (0, 0) (1, 0)"
    and run: "a_star_search first_min stale_graph (0, 0) (1, 1) stale_obstacles =
      Some (Inr (cf, csf))"
    and rule: "\<forall>n u. cf n = Some u \<longrightarrow>
          n = (0, 0) \<and> u = (0, 0) \<and> csf n = Some (Fin 0) \<or>
          n \<in> set (neighbors stale_graph u) \<and> \<not> has_type stale_obstacles n ''Indestructible'' \<and>
          (\<exists>c cu x. csf u = Some cu \<and> (cu = c \<or> cu < c) \<and> csf n = Some x \<and>
             charged stale_graph stale_obstacles c u n = Some x)"
    by blast
  from stale_search run have v: "cf (1, 0) = Some (0, 0)" "csf (0, 0) = Some (Fin 0)"
    "csf (1, 0) = Some (Fin (9227469 / 8388608))" "cf (0, 1) = None" "csf (0, 1) = None"
    "cf (1, 1) = Some (1, 0)" "csf (1, 1) = Some (Fin (4404019 / 2097152))"
    by simp_all
  from rule v(6) have "\<exists>c cu. csf (1, 0) = Some cu \<and> (cu = c \<or> cu < c) \<and>
      charged stale_graph stale_obstacles c (1, 0) (1, 1) = csf (1, 1)"
    by fastforce
  moreover have "subscript (cost_so_far (init_state (0, 0))) (0, 0) = Fin 0"
    by (simp add: subscript_def init_state_def)
  ultimately show ?thesis using nc run v stale_charges by simp
qed

text \<open>
  C1 as stated fails: on the graph with the edge of weight \<open>2\<^sup>2\<^sup>4\<close> the search reaches the
  Destructible obstacle of health 5 from a cell of cost \<open>16777216\<close> and records it with the
  same cost \<open>16777216\<close>: nothing is charged for the step, where the step cost of the
  claim is \<open>1 + \<lceil>5 / 10\<rceil> * 0.1\<close>, about \<open>1.1\<close>, and would give \<open>16777218\<close>.
\<close>

theorem step_cost_lost_counterexample:
  "\<exists>cf csf. a_star_search first_min far_graph (0, 0) (2, 0) far_obstacles =
       Some (Inr (cf, csf)) \<and>
     (\<exists>ob. far_obstacles (2, 0) = Some ob \<and> type ob = ''Destructible'' \<and> health ob = 5) \<and>
     cf (2, 0) = Some (1, 0) \<and> csf (1, 0) = Some (Fin 16777216) \<and>
     csf (2, 0) = Some (Fin 16777216) \<and>
     Fin 1 + fceil (float_of_int 5 / Fin 10) * tenth = Fin (9227469 / 8388608) \<and>
     Fin 16777216 + Fin (9227469 / 8388608) = Fin 16777218"
proof -
  from far_search obtain cf csf where
    "a_star_search first_min far_graph (0, 0) (2, 0) far_obstacles = Some (Inr (cf, csf))"
    "cf (2, 0) = Some (1, 0)" "csf (1, 0) = Some (Fin 16777216)"
    "csf (2, 0) = Some (Fin 16777216)"
    by (auto split: option.splits sum.splits)
  moreover have "\<exists>ob. far_obstacles (2, 0) = Some ob \<and> type ob = ''Destructible'' \<and> health ob = 5"
    by (simp add: far_obstacles_def new_Obstacle_def)
  ultimately show ?thesis using far_step by blast
qed


section \<open>No path\<close>

text \<open>
  C7. When the search returns without having recorded the goal, \<open>reconstruct_path\<close>
  returns the one-cell path \<open>[start]\<close> and raises nothing.
\<close>

theorem no_path_fallback:
  assumes "a_star_search pick graph start goal obstacles = Some (Inr (cf, csf))"
    and "cf goal = None"
  shows "reconstruct_path cf start goal = Some (Inr [start])"
  using assms(2) by (simp add: reconstruct_path_def)

lemma enclosed_search:
  "case a_star_search first_min (build_graph 3 enclosed_obstacles) (0, 0) (1, 1)
          enclosed_obstacles of
     Some (Inr (cf, csf)) \<Rightarrow> cf (1, 1) = None
   | _ \<Rightarrow> False"
  by code_simp

lemma enclosed_goal_unrecorded:
  "\<exists>cf csf. a_star_search first_min (build_graph 3 enclosed_obstacles) (0, 0) (1, 1)
       enclosed_obstacles = Some (Inr (cf, csf)) \<and> cf (1, 1) = None"
  using enclosed_search by (auto split: option.splits sum.splits)

theorem no_path_fallback_witness:
  "\<exists>cf csf. a_star_search first_min (build_graph 3 enclosed_obstacles) (0, 0) (1, 1)
       enclosed_obstacles = Some (Inr (cf, csf)) \<and> cf (1, 1) = None \<and>
     reconstruct_path cf (0, 0) (1, 1) = Some (Inr [(0, 0)])"
proof -
  obtain cf csf where h:
    "a_star_search first_min (build_graph 3 enclosed_obstacles) (0, 0) (1, 1)
       enclosed_obstacles = Some (Inr (cf, csf))"
    "cf (1, 1) = None"
    using enclosed_goal_unrecorded by blast
  from no_path_fallback [OF h] h show ?thesis by blast
qed


section \<open>Level configuration: scaling beyond the table\<close>

lemma pow105: "10 * (12 / 10 :: real) ^ 105 < 2147483648"
proof -
  have "(10 :: real) * 12 ^ 105 < 2147483648 * 10 ^ 105" by simp
  then show ?thesis by (simp add: field_simps)
qed

lemma pow106: "2147483648 \<le> 10 * (12 / 10 :: real) ^ 106"
proof -
  have "(2147483648 :: real) * 10 ^ 106 \<le> 10 * 12 ^ 106" by simp
  then show ?thesis by (simp add: field_simps)
qed

lemma pow_le_105:
  assumes "n \<le> 105"
  shows "10 * (12 / 10 :: real) ^ n < 2147483648"
proof -
  have "(12 / 10 :: real) ^ n \<le> (12 / 10) ^ 105"
    using assms by (intro power_increasing) simp_all
  then show ?thesis using pow105 by linarith
qed

lemma double_to_int_floor:
  assumes "0 \<le> v" and "v < 2147483648"
  shows "double_to_int v = Inr \<lfloor>v\<rfloor>"
proof -
  have "0 \<le> \<lfloor>v\<rfloor>" using assms(1) by simp
  moreover have "\<lfloor>v\<rfloor> < 2147483648" using assms(2) by (simp add: floor_less_iff)
  ultimately show ?thesis
    using assms(1) by (simp add: double_to_int_def INT_MAX_def INT_MIN_def Let_def)
qed

lemma double_to_int_pow:
  assumes "n \<le> 105"
  shows "double_to_int (10 * (12 / 10) ^ n) = Inr \<lfloor>10 * (12 / 10 :: real) ^ n\<rfloor>"
  by (rule double_to_int_floor [OF _ pow_le_105 [OF assms]]) simp

lemma get_level_config_beyond:
  assumes "2 \<le> level" and "level \<le> 106"
  shows "get_level_config draw level =
    Inr \<lparr>obstacle_count = 20 + level, item_count = 5,
          enemy_count = min 5 (1 + level div 3),
          block_hp = \<lfloor>10 * (12 / 10 :: real) ^ nat (level - 1)\<rfloor>,
          enemy_types = [''basic'', ''strong'', ''fire''],
          reward = CARD_POOL ! nat draw\<rparr>"
proof -
  have n: "nat (level - 1) \<le> 105" using assms by simp
  have e: "nat (level - int (length BASE_LEVELS) + 1) = nat (level - 1)"
    by (simp add: BASE_LEVELS_def)
  show ?thesis
    using assms double_to_int_pow [OF n]
    by (simp add: get_level_config_def e INT_MAX_def) (simp add: BASE_LEVELS_def)
qed

lemma block_hp_mono:
  assumes "m \<le> n"
  shows "\<lfloor>10 * (12 / 10 :: real) ^ m\<rfloor> \<le> \<lfloor>10 * (12 / 10 :: real) ^ n\<rfloor>"
proof -
  have "(12 / 10 :: real) ^ m \<le> (12 / 10) ^ n"
    using assms by (intro power_increasing) simp_all
  then show ?thesis by (intro floor_mono) simp
qed

text \<open>
  C9 as amended. For level indices \<open>2 \<le> level \<le> level' \<le> 106\<close>,
  \<open>get_level_config\<close> returns configurations whose obstacle count is \<open>20 + level\<close>,
  whose block hit points are \<open>10 * 1.2 ^ (level - tableSize + 1)\<close> truncated to an
  integer (the power taken exactly), whose enemy count is at most 5, and obstacle count
  and block hit points do not decrease from \<open>level\<close> to \<open>level'\<close>.
\<close>

theorem level_config_scaling:
  assumes "2 \<le> level" and "level \<le> level'" and "level' \<le> 106"
  shows "\<exists>cfg cfg'. get_level_config draw level = Inr cfg \<and>
     get_level_config draw' level' = Inr cfg' \<and>
     obstacle_count cfg = 20 + level \<and>
     block_hp cfg = \<lfloor>10 * (12 / 10 :: real) ^ nat (level - int (length BASE_LEVELS) + 1)\<rfloor> \<and>
     enemy_count cfg \<le> 5 \<and>
     obstacle_count cfg \<le> obstacle_count cfg' \<and>
     block_hp cfg \<le> block_hp cfg'"
proof -
  have a: "level \<le> 106" and b: "2 \<le> level'" using assms by simp_all
  have m: "nat (level - 1) \<le> nat (level' - 1)" using assms by simp
  have e: "nat (level - int (length BASE_LEVELS) + 1) = nat (level - 1)"
    by (simp add: BASE_LEVELS_def)
  show ?thesis
    unfolding get_level_config_beyond [OF assms(1) a] get_level_config_beyond [OF b assms(3)] e
    using assms(2) block_hp_mono [OF m] by simp
qed

theorem level_config_scaling_witness:
  "\<exists>cfg cfg'. get_level_config 0 2 = Inr cfg \<and> get_level_config 3 106 = Inr cfg' \<and>
     obstacle_count cfg = 22 \<and> block_hp cfg = 12 \<and> enemy_count cfg \<le> 5 \<and>
     obstacle_count cfg \<le> obstacle_count cfg' \<and> block_hp cfg \<le> block_hp cfg'"
  using level_config_scaling [of 2 106 0 3] by (simp add: BASE_LEVELS_def)

text \<open>
  C9 as stated fails beyond level 106: at level 107 the value \<open>10 * 1.2 ^ 106\<close> is above
  the largest \<^verbatim>\<open>int\<close>, so the conversion is undefined and no block hit-point value
  that continues the sequence is returned.
\<close>

theorem level_config_overflow_counterexample:
  "get_level_config 0 107 = Inl Undefined_behaviour \<and>
   \<not> (\<exists>cfg cfg'. get_level_config 0 106 = Inr cfg \<and> get_level_config 0 107 = Inr cfg' \<and>
        block_hp cfg \<le> block_hp cfg')"
proof -
  have "(2147483648 :: int) \<le> \<lfloor>10 * (12 / 10 :: real) ^ 106\<rfloor>"
    using pow106 by (simp add: le_floor_iff)
  then have "double_to_int (10 * (12 / 10) ^ 106) = Inl Undefined_behaviour"
    by (simp add: double_to_int_def INT_MAX_def Let_def)
  moreover have "nat (107 - int (length BASE_LEVELS) + 1) = 106"
    by (simp add: BASE_LEVELS_def)
  ultimately have "get_level_config 0 107 = Inl Undefined_behaviour"
    by (simp add: get_level_config_def INT_MAX_def)
  then show ?thesis by simp
qed

section \<open>The built graph\<close>

lemma add_edges_Nil: "add_edges [] g = g"
  by (simp add: add_edges_def)

lemma add_edges_append: "add_edges (es @ es') g = add_edges es' (add_edges es g)"
  by (simp add: add_edges_def)

lemma fold_add_edges_concat:
  "fold (\<lambda>x g'. add_edges (f x) g') xs g = add_edges (concat (map f xs)) g"
  by (induction xs arbitrary: g) (simp_all add: add_edges_Nil add_edges_append)

lemma visit_dir_edges: "visit_dir n obstacles c g d = add_edges (dir_edges n obstacles c d) g"
  by (auto simp: visit_dir_def dir_edges_def add_edges_def in_grid_def Let_def)

lemma visit_cell_edges: "visit_cell n obstacles g c = add_edges (cell_edges n obstacles c) g"
  by (simp add: visit_cell_def cell_edges_def visit_dir_edges fold_add_edges_concat add_edges_Nil)

lemma build_graph_all_edges: "build_graph n obstacles = add_edges (all_edges n obstacles) empty_graph"
proof -
  have "row_edges n obstacles = (\<lambda>x. concat (map (\<lambda>y. cell_edges n obstacles (x, y)) [0..n - 1]))"
    by (rule ext) (simp add: row_edges_def)
  then show ?thesis
    by (simp add: build_graph_def all_edges_def visit_cell_edges fold_add_edges_concat)
qed

lemma neighbors_add_edge:
  "neighbors (add_edge g a b w) c = (if c = a then neighbors g a @ [b] else neighbors g c)"
  by (simp add: add_edge_def neighbors_def)

lemma neighbors_add_edges:
  "neighbors (add_edges es g) a = neighbors g a @ map (\<lambda>e. fst (snd e)) (filter (\<lambda>e. fst e = a) es)"
proof (induction es rule: rev_induct)
  case Nil
  then show ?case by (simp add: add_edges_Nil)
next
  case (snoc e es)
  then show ?case
    by (simp add: add_edges_append) (simp add: add_edges_def neighbors_add_edge)
qed

lemma weights_add_edges_snoc:
  "weights (add_edges (es @ [e]) g) =
     (weights (add_edges es g))(edge_key (fst e) (fst (snd e)) \<mapsto> snd (snd e))"
  by (simp add: add_edges_append) (simp add: add_edges_def add_edge_def)

lemma weights_add_edges_other:
  assumes "\<forall>e \<in> set es. edge_key (fst e) (fst (snd e)) \<noteq> k"
  shows "weights (add_edges es g) k = weights g k"
  using assms
proof (induction es rule: rev_induct)
  case Nil
  then show ?case by (simp add: add_edges_Nil)
next
  case (snoc e es)
  then show ?case by (auto simp: weights_add_edges_snoc)
qed

lemma weights_add_edges_same:
  assumes "e0 \<in> set es" and "edge_key (fst e0) (fst (snd e0)) = k"
    and "\<forall>e \<in> set es. edge_key (fst e) (fst (snd e)) = k \<longrightarrow> snd (snd e) = w"
  shows "weights (add_edges es g) k = Some w"
  using assms
proof (induction es rule: rev_induct)
  case Nil
  then show ?case by simp
next
  case (snoc e es)
  show ?case
  proof (cases "edge_key (fst e) (fst (snd e)) = k")
    case True
    with snoc.prems(3) show ?thesis by (simp add: weights_add_edges_snoc)
  next
    case False
    with snoc.prems have "e0 \<in> set es" by auto
    with snoc.IH snoc.prems False show ?thesis by (simp add: weights_add_edges_snoc)
  qed
qed

lemma filter_concat_tagged:
  assumes "distinct xs" and "\<And>x e. e \<in> set (f x) \<Longrightarrow> tag e = x"
  shows "filter (\<lambda>e. tag e = x0) (concat (map f xs)) = (if x0 \<in> set xs then f x0 else [])"
  using assms(1)
proof (induction xs)
  case Nil
  then show ?case by simp
next
  case (Cons x xs)
  have one: "filter (\<lambda>e. tag e = x0) (f x) = (if x = x0 then f x else [])"
    using assms(2) [of _ x] by (auto simp: filter_empty_conv intro: filter_True)
  from Cons show ?case by (auto simp: one)
qed

lemma dir_edges_src: "e \<in> set (dir_edges n obstacles c d) \<Longrightarrow> fst e = c"
  by (auto simp: dir_edges_def Let_def split: if_splits)

lemma cell_edges_src: "e \<in> set (cell_edges n obstacles c) \<Longrightarrow> fst e = c"
  by (auto simp: cell_edges_def dest: dir_edges_src split: if_splits)

lemma row_edges_src: "e \<in> set (row_edges n obstacles x) \<Longrightarrow> fst (fst e) = x"
  by (auto simp: row_edges_def dest: cell_edges_src)

lemma filter_row_edges:
  "filter (\<lambda>e. snd (fst e) = y) (row_edges n obstacles x) =
     (if 0 \<le> y \<and> y < n then cell_edges n obstacles (x, y) else [])"
proof -
  have "filter (\<lambda>e. snd (fst e) = y) (row_edges n obstacles x) =
      (if y \<in> set [0..n - 1] then cell_edges n obstacles (x, y) else [])"
    unfolding row_edges_def
    by (rule filter_concat_tagged) (auto dest: cell_edges_src)
  then show ?thesis by auto
qed

lemma filter_all_edges_row:
  "filter (\<lambda>e. fst (fst e) = x) (all_edges n obstacles) =
     (if 0 \<le> x \<and> x < n then row_edges n obstacles x else [])"
proof -
  have "filter (\<lambda>e. fst (fst e) = x) (all_edges n obstacles) =
      (if x \<in> set [0..n - 1] then row_edges n obstacles x else [])"
    unfolding all_edges_def
    by (rule filter_concat_tagged) (auto dest: row_edges_src)
  then show ?thesis by auto
qed

lemma filter_all_edges:
  "filter (\<lambda>e. fst e = a) (all_edges n obstacles) =
     (if in_grid n a then cell_edges n obstacles a else [])"
proof -
  have "filter (\<lambda>e. fst e = a) (all_edges n obstacles) =
      filter (\<lambda>e. snd (fst e) = snd a) (filter (\<lambda>e. fst (fst e) = fst a) (all_edges n obstacles))"
    by (auto simp: prod_eq_iff intro: filter_cong)
  then show ?thesis
    by (simp add: filter_all_edges_row filter_row_edges in_grid_def)
qed

lemma neighbors_empty_graph: "neighbors empty_graph a = []"
  by (simp add: neighbors_def empty_graph_def)

lemma map_dst_cell_edges:
  "map (\<lambda>e. fst (snd e)) (cell_edges n obstacles a) =
     (if has_type obstacles a ''Indestructible'' then []
      else filter (\<lambda>b. in_grid n b \<and> \<not> has_type obstacles b ''Indestructible'')
             (map (\<lambda>d. (fst a + fst d, snd a + snd d)) dirs))"
  by (simp add: cell_edges_def dirs_def dir_edges_def Let_def)

lemma neighbors_build_graph:
  "neighbors (build_graph n obstacles) a =
     (if in_grid n a \<and> \<not> has_type obstacles a ''Indestructible''
      then filter (\<lambda>b. in_grid n b \<and> \<not> has_type obstacles b ''Indestructible'')
             (map (\<lambda>d. (fst a + fst d, snd a + snd d)) dirs)
      else [])"
proof (cases "in_grid n a")
  case True
  then show ?thesis
    by (simp add: build_graph_all_edges neighbors_add_edges neighbors_empty_graph
        filter_all_edges map_dst_cell_edges)
next
  case False
  then show ?thesis
    by (simp add: build_graph_all_edges neighbors_add_edges neighbors_empty_graph
        filter_all_edges)
qed

lemma m16: "(0xFFFF :: 64 word) = mask 16"
  by (simp add: mask_eq_exp_minus_1)

lemma uint_low16: "uint (take_bit 16 (word_of_int x :: 64 word)) = x mod 65536"
proof -
  have "uint (take_bit 16 (word_of_int x :: 64 word)) = take_bit 16 (uint (word_of_int x :: 64 word))"
    by (simp only: unsigned_take_bit_eq)
  also have "\<dots> = take_bit 16 (take_bit 64 x)"
    by (simp only: uint_word_of_int_eq) simp
  also have "\<dots> = take_bit 16 x"
    by simp
  also have "\<dots> = x mod 65536"
    by (simp add: take_bit_eq_mod)
  finally show ?thesis .
qed

lemma edge_key_field1: "uint (take_bit 16 (drop_bit 48 (edge_key a b))) = fst a mod 65536"
proof -
  have "take_bit 16 (drop_bit 48 (edge_key a b)) = take_bit 16 (word_of_int (fst a))"
    unfolding edge_key_def m16 by (rule bit_word_eqI) (auto simp: bit_simps)
  then show ?thesis by (simp only: uint_low16)
qed

lemma edge_key_field2: "uint (take_bit 16 (drop_bit 32 (edge_key a b))) = snd a mod 65536"
proof -
  have "take_bit 16 (drop_bit 32 (edge_key a b)) = take_bit 16 (word_of_int (snd a))"
    unfolding edge_key_def m16 by (rule bit_word_eqI) (auto simp: bit_simps)
  then show ?thesis by (simp only: uint_low16)
qed

lemma edge_key_field3: "uint (take_bit 16 (drop_bit 16 (edge_key a b))) = fst b mod 65536"
proof -
  have "take_bit 16 (drop_bit 16 (edge_key a b)) = take_bit 16 (word_of_int (fst b))"
    unfolding edge_key_def m16 by (rule bit_word_eqI) (auto simp: bit_simps)
  then show ?thesis by (simp only: uint_low16)
qed

lemma edge_key_field4: "uint (take_bit 16 (edge_key a b)) = snd b mod 65536"
proof -
  have "take_bit 16 (edge_key a b) = take_bit 16 (word_of_int (snd b))"
    unfolding edge_key_def m16 by (rule bit_word_eqI) (auto simp: bit_simps)
  then show ?thesis by (simp only: uint_low16)
qed

lemma edge_key_eq_mod:
  assumes "edge_key a b = edge_key c d"
  shows "fst a mod 65536 = fst c mod 65536" and "snd a mod 65536 = snd c mod 65536"
    and "fst b mod 65536 = fst d mod 65536" and "snd b mod 65536 = snd d mod 65536"
  using edge_key_field1 [of a b] edge_key_field1 [of c d]
    edge_key_field2 [of a b] edge_key_field2 [of c d]
    edge_key_field3 [of a b] edge_key_field3 [of c d]
    edge_key_field4 [of a b] edge_key_field4 [of c d]
  by (simp_all only: assms)

lemma edge_key_inj_grid:
  assumes "n \<le> 65536" and "in_grid n a" and "in_grid n b" and "in_grid n c" and "in_grid n d"
    and "edge_key a b = edge_key c d"
  shows "a = c \<and> b = d"
  using assms(1-5) edge_key_eq_mod [OF assms(6)]
  by (auto simp: in_grid_def prod_eq_iff)

lemma dir_edges_member:
  assumes "e \<in> set (dir_edges n obstacles c d)"
  shows "fst e = c \<and> fst (snd e) = (fst c + fst d, snd c + snd d) \<and> in_grid n (fst (snd e)) \<and>
    snd (snd e) = (if has_type obstacles (fst (snd e)) ''Destructible'' then Fin 10 else Fin 1)"
  using assms by (auto simp: dir_edges_def Let_def split: if_splits)

lemma cell_edges_member:
  assumes "e \<in> set (cell_edges n obstacles c)"
  shows "fst e = c \<and> (\<exists>d \<in> set dirs. fst (snd e) = (fst c + fst d, snd c + snd d)) \<and>
    in_grid n (fst (snd e)) \<and>
    snd (snd e) = (if has_type obstacles (fst (snd e)) ''Destructible'' then Fin 10 else Fin 1)"
proof -
  from assms obtain d where d: "d \<in> set dirs" "e \<in> set (dir_edges n obstacles c d)"
    by (auto simp: cell_edges_def split: if_splits)
  from dir_edges_member [OF d(2)] d(1) show ?thesis by blast
qed

lemma all_edges_member:
  assumes "e \<in> set (all_edges n obstacles)"
  shows "in_grid n (fst e) \<and> e \<in> set (cell_edges n obstacles (fst e))"
proof -
  from assms have "e \<in> set (filter (\<lambda>e'. fst e' = fst e) (all_edges n obstacles))"
    by simp
  then show ?thesis
    by (simp only: filter_all_edges split: if_splits) simp_all
qed

lemma cost_build_graph:
  assumes "n \<le> 65536" and "b \<in> set (neighbors (build_graph n obstacles) a)"
  shows "cost (build_graph n obstacles) a b =
    (if has_type obstacles b ''Destructible'' then Fin 10 else Fin 1)"
proof -
  let ?w = "if has_type obstacles b ''Destructible'' then Fin 10 else Fin 1"
  from assms(2) obtain e0 where e0: "e0 \<in> set (all_edges n obstacles)" "fst e0 = a" "fst (snd e0) = b"
    by (auto simp: build_graph_all_edges neighbors_add_edges neighbors_empty_graph)
  have ga: "in_grid n a" and gb: "in_grid n b"
    using all_edges_member [OF e0(1)] cell_edges_member [of e0 n obstacles a] e0(2,3) by auto
  have same: "snd (snd e) = ?w"
    if e: "e \<in> set (all_edges n obstacles)" and k: "edge_key (fst e) (fst (snd e)) = edge_key a b" for e
  proof -
    from all_edges_member [OF e] have g1: "in_grid n (fst e)"
      and c: "e \<in> set (cell_edges n obstacles (fst e))" by simp_all
    from cell_edges_member [OF c] have g2: "in_grid n (fst (snd e))"
      and w: "snd (snd e) = (if has_type obstacles (fst (snd e)) ''Destructible'' then Fin 10 else Fin 1)"
      by simp_all
    from edge_key_inj_grid [OF assms(1) g1 g2 ga gb k] w show ?thesis by simp
  qed
  have "weights (build_graph n obstacles) (edge_key a b) = Some ?w"
    unfolding build_graph_all_edges
    by (rule weights_add_edges_same [OF e0(1)]) (use e0 same in auto)
  then show ?thesis by (simp add: cost_def)
qed

lemma far_row_no_collision:
  assumes "e \<in> set (concat (map (\<lambda>y. cell_edges 65537 obstacles (65536, y)) [1..65536]))"
  shows "edge_key (fst e) (fst (snd e)) \<noteq> edge_key (0, 0) (0, 1)"
proof
  assume k: "edge_key (fst e) (fst (snd e)) = edge_key (0, 0) (0, 1)"
  from assms obtain y where y: "1 \<le> y" "y \<le> 65536" "e \<in> set (cell_edges 65537 obstacles (65536, y))"
    by auto
  from cell_edges_member [OF y(3)] obtain d where d: "d \<in> set dirs"
    "fst e = (65536, y)" "fst (snd e) = (65536 + fst d, y + snd d)" "in_grid 65537 (fst (snd e))"
    by auto
  from edge_key_eq_mod [OF k] d(2,3)
  have "y mod 65536 = 0" "(65536 + fst d) mod 65536 = 0" "(y + snd d) mod 65536 = 1"
    by simp_all
  with y(1,2) d(1,4) d(3) show False
    by (auto simp: dirs_def in_grid_def)
qed

lemma cost_build_graph_no_edge:
  assumes "n \<le> 65536" and "in_grid n a" and "in_grid n b"
    and "b \<notin> set (neighbors (build_graph n obstacles) a)"
  shows "cost (build_graph n obstacles) a b = PosInf"
proof -
  have "edge_key (fst e) (fst (snd e)) \<noteq> edge_key a b" if e: "e \<in> set (all_edges n obstacles)" for e
  proof
    assume k: "edge_key (fst e) (fst (snd e)) = edge_key a b"
    from all_edges_member [OF e] have g1: "in_grid n (fst e)"
      and c: "e \<in> set (cell_edges n obstacles (fst e))" by simp_all
    from cell_edges_member [OF c] have g2: "in_grid n (fst (snd e))" by simp
    from edge_key_inj_grid [OF assms(1) g1 g2 assms(2,3) k] have "fst e = a" "fst (snd e) = b"
      by simp_all
    with e have "b \<in> set (neighbors (build_graph n obstacles) a)"
      by (force simp: build_graph_all_edges neighbors_add_edges neighbors_empty_graph)
    with assms(4) show False by simp
  qed
  then have "weights (build_graph n obstacles) (edge_key a b) = weights empty_graph (edge_key a b)"
    unfolding build_graph_all_edges by (intro weights_add_edges_other) blast
  then show ?thesis by (simp add: cost_def empty_graph_def)
qed

text \<open>
  C6 as amended. For every grid size up to 65536 and every obstacle map, the graph has an
  edge from every cell of the grid without an Indestructible obstacle to each of its four
  neighbors that is in the grid and without an Indestructible obstacle, in the order left,
  right, up, down, and no other edge; an edge weighs 10 when its destination holds a
  Destructible obstacle and 1 otherwise; a pair of cells of the grid that is no edge has
  no weight; a cell with an Indestructible obstacle is neither source nor destination
  of an edge.
\<close>

theorem build_graph_edges:
  assumes "grid_size \<le> 65536"
  shows "neighbors (build_graph grid_size obstacles) a =
      (if in_grid grid_size a \<and> \<not> has_type obstacles a ''Indestructible''
       then filter (\<lambda>b. in_grid grid_size b \<and> \<not> has_type obstacles b ''Indestructible'')
              (map (\<lambda>d. (fst a + fst d, snd a + snd d)) [(-1, 0), (1, 0), (0, -1), (0, 1)])
       else []) \<and>
    (\<forall>b \<in> set (neighbors (build_graph grid_size obstacles) a).
       cost (build_graph grid_size obstacles) a b =
         (if has_type obstacles b ''Destructible'' then Fin 10 else Fin 1)) \<and>
    (\<forall>b. in_grid grid_size a \<and> in_grid grid_size b \<and>
         b \<notin> set (neighbors (build_graph grid_size obstacles) a) \<longrightarrow>
       cost (build_graph grid_size obstacles) a b = PosInf) \<and>
    (has_type obstacles a ''Indestructible'' \<longrightarrow>
       neighbors (build_graph grid_size obstacles) a = [] \<and>
       (\<forall>c. a \<notin> set (neighbors (build_graph grid_size obstacles) c)))"
proof -
  have "a \<notin> set (neighbors (build_graph grid_size obstacles) c)"
    if "has_type obstacles a ''Indestructible''" for c
    using that by (auto simp: neighbors_build_graph)
  then show ?thesis
    using cost_build_graph [OF assms] cost_build_graph_no_edge [OF assms]
    by (simp add: neighbors_build_graph [unfolded dirs_def])
qed

theorem build_graph_edges_witness:
  "(3 :: int) \<le> 65536 \<and>
   neighbors (build_graph 3 two_obstacles) (0, 0) = [(1, 0)] \<and>
   cost (build_graph 3 two_obstacles) (0, 0) (1, 0) = Fin 10 \<and>
   cost (build_graph 3 two_obstacles) (0, 0) (1, 1) = PosInf \<and>
   neighbors (build_graph 3 two_obstacles) (0, 1) = [] \<and>
   (0, 1) \<notin> set (neighbors (build_graph 3 two_obstacles) (1, 1))"
proof -
  have n: "(3 :: int) \<le> 65536" by simp
  have ind: "has_type two_obstacles (0, 1) ''Indestructible''"
    and des: "has_type two_obstacles (1, 0) ''Destructible''"
    and free: "\<not> has_type two_obstacles (0, 0) ''Indestructible''"
    and ndes: "\<not> has_type two_obstacles (1, 0) ''Indestructible''"
    by (simp_all add: has_type_def two_obstacles_def new_Obstacle_def)
  have nb: "neighbors (build_graph 3 two_obstacles) (0, 0) = [(1, 0)]"
    using build_graph_edges [OF n, of two_obstacles "(0, 0)"] ind free ndes
    by (simp add: in_grid_def)
  have c: "cost (build_graph 3 two_obstacles) (0, 0) (1, 0) = Fin 10"
    using build_graph_edges [OF n, of two_obstacles "(0, 0)"] nb des by simp
  have i: "cost (build_graph 3 two_obstacles) (0, 0) (1, 1) = PosInf"
    using build_graph_edges [OF n, of two_obstacles "(0, 0)"] nb by (simp add: in_grid_def)
  have "neighbors (build_graph 3 two_obstacles) (0, 1) = [] \<and>
      (0, 1) \<notin> set (neighbors (build_graph 3 two_obstacles) (1, 1))"
    using build_graph_edges [OF n, of two_obstacles "(0, 1)"] ind by blast
  with nb c i show ?thesis by simp
qed

text \<open>
  C6 as stated fails on a grid of side 65537: \<open>edge_key\<close> keeps 16 bits of each
  coordinate, so the edge from \<open>(65536, 0)\<close> to \<open>(65536, 1)\<close>, added later, overwrites
  the weight of the edge from \<open>(0, 0)\<close> to \<open>(0, 1)\<close>: the destination \<open>(0, 1)\<close> holds a
  Destructible obstacle and the edge weighs 1.
\<close>

theorem build_graph_key_collision_counterexample:
  "(0, 1) \<in> set (neighbors (build_graph 65537 collide_obstacles) (0, 0)) \<and>
   has_type collide_obstacles (0, 1) ''Destructible'' \<and>
   cost (build_graph 65537 collide_obstacles) (0, 0) (0, 1) = Fin 1"
proof -
  let ?obs = collide_obstacles
  have nb: "(0, 1) \<in> set (neighbors (build_graph 65537 ?obs) (0, 0))"
    by (simp add: neighbors_build_graph in_grid_def dirs_def has_type_def collide_obstacles_def
        new_Obstacle_def)
  have ht: "has_type ?obs (0, 1) ''Destructible''"
    by (simp add: has_type_def collide_obstacles_def new_Obstacle_def)
  define A where "A = concat (map (row_edges 65537 ?obs) [0..65535])"
  define B where "B = concat (map (\<lambda>y. cell_edges 65537 ?obs (65536, y)) [1..65536])"
  have rows: "[0..65537 - 1] = [0..65535] @ [65536::int]"
    using upto_rec2 [of 0 65536] by simp
  have cells: "[0..65536] = 0 # [1..65536::int]"
    using upto_rec1 [of 0 65536] by simp
  have split: "all_edges 65537 ?obs = A @ cell_edges 65537 ?obs (65536, 0) @ B"
    unfolding all_edges_def rows by (simp add: A_def B_def) (simp add: row_edges_def cells)
  have C: "cell_edges 65537 ?obs (65536, 0) =
      [((65536, 0), (65535, 0), Fin 1), ((65536, 0), (65536, 1), Fin 1)]"
    by (simp add: cell_edges_def dir_edges_def dirs_def in_grid_def has_type_def
        collide_obstacles_def)
  have same_key: "edge_key (65536, 0) (65536, 1) = edge_key (0, 0) (0, 1)"
    by (simp add: edge_key_def)
  have other_key: "edge_key (65536, 0) (65535, 0) \<noteq> edge_key (0, 0) (0, 1)"
    by (simp add: edge_key_def)
  have "weights (build_graph 65537 ?obs) (edge_key (0, 0) (0, 1)) =
      weights (add_edges (cell_edges 65537 ?obs (65536, 0)) (add_edges A empty_graph))
        (edge_key (0, 0) (0, 1))"
    unfolding build_graph_all_edges split add_edges_append
    by (rule weights_add_edges_other) (use far_row_no_collision [of _ ?obs] in \<open>auto simp: B_def\<close>)
  also have "\<dots> = Some (Fin 1)"
    unfolding C by (simp add: add_edges_def add_edge_def same_key)
  finally show ?thesis
    using nb ht by (simp add: cost_def)
qed

section \<open>Random placement: what a returned layout satisfies\<close>

lemma fold_insert_set: "fold insert xs A = set xs \<union> A"
  by (induction xs arbitrary: A) auto

lemma grid_positions_product: "grid_positions n = List.product [0..n - 1] [0..n - 1]"
  by (simp add: grid_positions_def product_concat_map)

lemma distinct_grid_positions: "distinct (grid_positions n)"
  by (simp add: grid_positions_product distinct_product)

lemma set_grid_positions: "set (grid_positions n) = {p. in_grid n p}"
  by (auto simp: grid_positions_product in_grid_def)

lemma fair_shuffle:
  assumes "fair rng"
  shows "set (shuffle rng t xs) = set xs" and "distinct (shuffle rng t xs) = distinct xs"
    and "length (shuffle rng t xs) = length xs"
proof -
  have m: "mset (shuffle rng t xs) = mset xs" using assms by (simp add: fair_def)
  show "set (shuffle rng t xs) = set xs" by (rule mset_eq_setD [OF m])
  show "distinct (shuffle rng t xs) = distinct xs" by (rule mset_eq_imp_distinct_iff [OF m])
  show "length (shuffle rng t xs) = length xs" by (rule mset_eq_length [OF m])
qed

lemma resize_within:
  assumes "0 \<le> n" and "n \<le> int (length v)"
  shows "resize v n filler = Inr (take (nat n) v)"
  using assms by (simp add: resize_def)

lemma resize_Inr:
  assumes "resize v n filler = Inr ys"
  shows "0 \<le> n \<and> ys = take (nat n) v @ replicate (nat n - length v) filler"
  using assms by (auto simp: resize_def split: if_splits)

text \<open>The starts\<close>

lemma pick_valid_positions_Some:
  assumes "pick_valid_positions rng all_positions d cnt t = Some y"
  shows "\<forall>p es t'. y = Inr (p, es, t') \<longrightarrow>
    (\<forall>e \<in> set es. d \<le> manhattan p e) \<and>
    (\<exists>k. resize (shuffle rng k all_positions) (cnt + 1) (0, 0) = Inr (p # es))"
proof (rule pick_valid_positions.raw_induct
    [where P = "\<lambda>rng all_positions d cnt t y. \<forall>p es t'. y = Inr (p, es, t') \<longrightarrow>
       (\<forall>e \<in> set es. d \<le> manhattan p e) \<and>
       (\<exists>k. resize (shuffle rng k all_positions) (cnt + 1) (0, 0) = Inr (p # es))",
     OF _ assms])
  fix pick rng all_positions d cnt t y
  assume IH: "\<And>rng all_positions d cnt t y. pick rng all_positions d cnt t = Some y \<Longrightarrow>
      \<forall>p es t'. y = Inr (p, es, t') \<longrightarrow>
        (\<forall>e \<in> set es. d \<le> manhattan p e) \<and>
        (\<exists>k. resize (shuffle rng k all_positions) (cnt + 1) (0, 0) = Inr (p # es))"
    and step: "(case resize (shuffle rng t all_positions) (cnt + 1) (0, 0) of
        Inl e \<Rightarrow> Some (Inl e)
      | Inr [] \<Rightarrow> Some (Inl Undefined_behaviour)
      | Inr (player_pos # enemies) \<Rightarrow>
          if \<forall>e \<in> set enemies. \<not> manhattan player_pos e < d
          then Some (Inr (player_pos, enemies, Suc t))
          else pick rng all_positions d cnt (Suc t)) = Some y"
  show "\<forall>p es t'. y = Inr (p, es, t') \<longrightarrow>
      (\<forall>e \<in> set es. d \<le> manhattan p e) \<and>
      (\<exists>k. resize (shuffle rng k all_positions) (cnt + 1) (0, 0) = Inr (p # es))"
  proof (cases "resize (shuffle rng t all_positions) (cnt + 1) (0, 0)")
    case (Inl e)
    with step show ?thesis by auto
  next
    case (Inr picks)
    show ?thesis
    proof (cases picks)
      case Nil
      with step Inr show ?thesis by auto
    next
      case (Cons player_pos enemies)
      show ?thesis
      proof (cases "\<forall>e \<in> set enemies. \<not> manhattan player_pos e < d")
        case True
        with step Inr Cons have "y = Inr (player_pos, enemies, Suc t)" by simp
        with True Inr Cons show ?thesis by (auto simp: not_less)
      next
        case False
        with step Inr Cons have "pick rng all_positions d cnt (Suc t) = Some y" by simp
        from IH [OF this] show ?thesis .
      qed
    qed
  qed
qed

lemma pick_valid_positions_Inr:
  assumes "pick_valid_positions rng all_positions d cnt t = Some (Inr (p, es, t'))"
  shows "(\<forall>e \<in> set es. d \<le> manhattan p e) \<and>
    (\<exists>k. resize (shuffle rng k all_positions) (cnt + 1) (0, 0) = Inr (p # es))"
  using pick_valid_positions_Some [OF assms] by blast

text \<open>Starts on a grid are distinct: a padded batch never passes the distance check.\<close>

lemma starts_distinct:
  assumes f: "fair rng"
    and r: "resize (shuffle rng k (grid_positions n)) (cnt + 1) (0, 0) = Inr (p # es)"
    and d: "\<forall>e \<in> set es. 5 \<le> manhattan p e"
  shows "distinct (p # es)"
proof -
  let ?s = "shuffle rng k (grid_positions n)"
  have ds: "distinct ?s" using fair_shuffle(2) [OF f] distinct_grid_positions by simp
  have ss: "set ?s = {q. in_grid n q}" using fair_shuffle(1) [OF f] set_grid_positions by simp
  from resize_Inr [OF r] have c0: "0 \<le> cnt + 1"
    and eq: "p # es = take (nat (cnt + 1)) ?s @ replicate (nat (cnt + 1) - length ?s) (0, 0)"
    by simp_all
  show ?thesis
  proof (cases "nat (cnt + 1) \<le> length ?s")
    case True
    with eq have "p # es = take (nat (cnt + 1)) ?s" by simp
    with ds show ?thesis using distinct_take [of ?s "nat (cnt + 1)"] by simp
  next
    case False
    then have "0 < nat (cnt + 1) - length ?s" by simp
    then obtain j where j: "nat (cnt + 1) - length ?s = Suc j"
      using gr0_implies_Suc by blast
    from False eq j have eq': "p # es = ?s @ (0, 0) # replicate j (0, 0)" by simp
    show ?thesis
    proof (cases ?s)
      case Nil
      with eq' have p: "p = (0, 0)" and es: "es = replicate j (0, 0)" by simp_all
      have "j = 0"
      proof (rule ccontr)
        assume "j \<noteq> 0"
        with es have "(0, 0) \<in> set es" by simp
        with d p show False by (auto simp: manhattan_def)
      qed
      with es show ?thesis by simp
    next
      case (Cons q qs)
      with eq' have p: "p = q" and es: "es = qs @ (0, 0) # replicate j (0, 0)" by simp_all
      from es d have far: "5 \<le> manhattan p (0, 0)" by simp
      from Cons ss p have g: "in_grid n p" by auto
      define nb where "nb = (if 1 \<le> fst p then (fst p - 1, snd p) else (fst p, snd p - 1))"
      have nbg: "in_grid n nb" and nbne: "nb \<noteq> p" and near: "manhattan p nb = 1"
        using g far by (auto simp: nb_def in_grid_def manhattan_def prod_eq_iff)
      from nbg ss have "nb \<in> set ?s" by simp
      with Cons p nbne have "nb \<in> set qs" by auto
      with es have "nb \<in> set es" by simp
      with d near show ?thesis by auto
    qed
  qed
qed


text \<open>The obstacles of the remaining candidates\<close>

lemma emplace_dom: "dom (emplace m k v) = insert k (dom m)"
  by (auto simp: emplace_def split: option.splits)

lemma emplace_old: "p \<in> dom m \<Longrightarrow> emplace m k v p = m p"
  by (auto simp: emplace_def split: option.splits)

lemma emplace_new: "emplace m k v p = Some ob \<Longrightarrow> p \<notin> dom m \<Longrightarrow> ob = v"
  by (auto simp: emplace_def split: option.splits if_splits)

lemma place_fold:
  fixes f :: "nat \<times> GridPos \<Rightarrow> (GridPos \<rightharpoonup> Obstacle) \<Rightarrow> (GridPos \<rightharpoonup> Obstacle)"
  assumes f: "\<And>i pos m. f (i, pos) m = emplace m pos (g i pos)"
    and g: "\<And>i pos. \<not> is_main_block (g i pos)"
  shows "dom (fold f ips m) = dom m \<union> snd ` set ips \<and>
    (\<forall>p \<in> dom m. fold f ips m p = m p) \<and>
    (\<forall>p ob. fold f ips m p = Some ob \<and> p \<notin> dom m \<longrightarrow> \<not> is_main_block ob)"
proof (induction ips arbitrary: m)
  case Nil
  then show ?case by auto
next
  case (Cons ip ips)
  obtain i pos where ip: "ip = (i, pos)" by (cases ip)
  define v where "v = g i pos"
  have v: "\<not> is_main_block v" "f (i, pos) m = emplace m pos v"
    using f [of i pos m] g [of i pos] by (simp_all add: v_def)
  let ?m = "emplace m pos v"
  have IH: "dom (fold f ips ?m) = dom ?m \<union> snd ` set ips"
    "\<forall>p \<in> dom ?m. fold f ips ?m p = ?m p"
    "\<forall>p ob. fold f ips ?m p = Some ob \<and> p \<notin> dom ?m \<longrightarrow> \<not> is_main_block ob"
    using Cons.IH [of ?m] by blast+
  have 1: "dom (fold f (ip # ips) m) = dom m \<union> snd ` set (ip # ips)"
    using IH(1) by (auto simp: ip v(2) emplace_dom)
  have 2: "\<forall>p \<in> dom m. fold f (ip # ips) m p = m p"
    using IH(2) by (auto simp: ip v(2) emplace_dom emplace_old)
  have 3: "\<not> is_main_block ob" if "fold f (ip # ips) m p = Some ob" and "p \<notin> dom m" for p ob
  proof (cases "p \<in> dom ?m")
    case True
    with IH(2) that(1) have "?m p = Some ob" by (simp add: ip v(2))
    from emplace_new [OF this that(2)] v(1) show ?thesis by simp
  next
    case False
    from that(1) have "fold f ips ?m p = Some ob" by (simp add: ip v(2))
    with IH(3) False show ?thesis by blast
  qed
  from 1 2 3 show ?case by blast
qed

lemma place_rest_props:
  "dom (place_rest d rest m) = dom m \<union> set rest \<and>
    (\<forall>p \<in> dom m. place_rest d rest m p = m p) \<and>
    (\<forall>p ob. place_rest d rest m p = Some ob \<and> p \<notin> dom m \<longrightarrow> \<not> is_main_block ob)"
proof -
  have "dom (place_rest d rest m) = dom m \<union> snd ` set (enumerate 0 rest) \<and>
    (\<forall>p \<in> dom m. place_rest d rest m p = m p) \<and>
    (\<forall>p ob. place_rest d rest m p = Some ob \<and> p \<notin> dom m \<longrightarrow> \<not> is_main_block ob)"
    unfolding place_rest_def
    by (rule place_fold [where g = "\<lambda>i pos. if int i < d
          then new_Obstacle (fst pos) (snd pos) ''Destructible'' OBSTACLE_HEALTH
          else new_Obstacle (fst pos) (snd pos) ''Indestructible'' 0"])
      (auto simp: new_Obstacle_def)
  moreover have "snd ` set (enumerate 0 rest) = set rest"
    by (metis list.set_map map_snd_enumerate)
  ultimately show ?thesis by simp
qed


text \<open>What a normal return of the placement says\<close>

lemma place_entities_Inr:
  assumes f: "fair rng" and da: "distinct all_positions"
    and pe: "place_entities rng n oc ic hp all_positions P E t = Inr r"
  shows "\<exists>G R C.
    gen_player_pos r = P \<and> gen_enemy_pos_list r = E \<and> gen_main_item_list r = [G] \<and>
    G \<in> set all_positions \<and> G \<notin> corners n \<and> G \<noteq> P \<and> G \<notin> set E \<and> is_not_edge G n \<and>
    distinct R \<and> set R \<subseteq> set all_positions \<and>
    set R \<inter> (corners n \<union> {P} \<union> set E \<union> {G}) = {} \<and>
    distinct C \<and> set C \<subseteq> set all_positions \<and>
    set C \<inter> (corners n \<union> {P} \<union> set E \<union> {G} \<union> set R) = {} \<and>
    dom (gen_obstacles r) = {G} \<union> set R \<and>
    gen_obstacles r G =
      Some ((new_Obstacle (fst G) (snd G) ''Destructible'' hp) \<lparr>is_main_block := True\<rparr>) \<and>
    (\<forall>p ob. gen_obstacles r p = Some ob \<and> p \<noteq> G \<longrightarrow> \<not> is_main_block ob) \<and>
    gen_items r =
      map (\<lambda>p. \<lparr>item_x = fst p, item_y = snd p, is_main = False\<rparr>) C @
      [\<lparr>item_x = fst G, item_y = snd G, is_main = True\<rparr>] \<and>
    int (length R) = min (max 0 (oc - 1))
      (int (length (filter (\<lambda>p. p \<notin> corners n \<union> {P} \<union> set E \<union> {G}) all_positions))) \<and>
    int (length C) + 1 = min (max 1 ic)
      (int (length (filter (\<lambda>p. p \<notin> corners n \<union> {P} \<union> set E \<union> {G} \<union> set R) all_positions)))"
proof -
  define F1 where "F1 = fold insert E (insert P (corners n))"
  define mc where "mc = filter (\<lambda>p. p \<notin> F1 \<and> is_not_edge p n) all_positions"
  define G where "G = mc ! nat (rand_int rng t 0 (int (length mc) - 1))"
  define F2 where "F2 = insert G F1"
  define mb where
    "mb = (new_Obstacle (fst G) (snd G) ''Destructible'' hp) \<lparr>is_main_block := True\<rparr>"
  define rc where "rc = filter (\<lambda>p. p \<notin> F2) all_positions"
  define k1 where "k1 = (if oc - 1 < 0 then 0 else oc - 1)"
  define k where "k = (if k1 > int (length rc) then int (length rc) else k1)"
  define R where "R = take (nat k) (shuffle rng (Suc t) rc)"
  define obs where "obs = place_rest \<lfloor>of_int k * (3 / 10 :: real)\<rfloor> R (emplace Map.empty G mb)"
  define F3 where "F3 = fold insert R F2"
  define icand where "icand = filter (\<lambda>p. p \<notin> F3) all_positions"
  define i1 where "i1 = (if ic < 1 then 1 else ic)"
  define i2 where "i2 = (if i1 > int (length icand) then int (length icand) else i1)"
  define C where "C = take (nat (i2 - 1)) (shuffle rng (Suc (Suc t)) icand)"
  have k: "0 \<le> k" "k \<le> int (length (shuffle rng (Suc t) rc))"
    by (simp_all add: k_def k1_def fair_shuffle(3) [OF f])
  have rz: "resize (shuffle rng (Suc t) rc) k (0, 0) = Inr R"
    unfolding R_def by (rule resize_within [OF k])
  have unfold: "place_entities rng n oc ic hp all_positions P E t =
     (if mc = [] then Inl Undefined_behaviour
      else case resize (shuffle rng (Suc (Suc t)) icand) (i2 - 1) (0, 0) of
             Inl e \<Rightarrow> Inl e
           | Inr chosen \<Rightarrow>
               Inr \<lparr>gen_obstacles = obs,
                    gen_items =
                      map (\<lambda>p. \<lparr>item_x = fst p, item_y = snd p, is_main = False\<rparr>) chosen @
                      [\<lparr>item_x = fst G, item_y = snd G, is_main = True\<rparr>],
                    gen_player_pos = P, gen_enemy_pos_list = E, gen_main_item_list = [G]\<rparr>)"
    apply (simp only: place_entities_def Let_def)
    apply (fold F1_def)
    apply (fold mc_def)
    apply (fold G_def)
    apply (fold F2_def)
    apply (fold mb_def)
    apply (fold rc_def)
    apply (fold k1_def)
    apply (fold k_def)
    apply (simp only: rz sum.case)
    apply (fold obs_def)
    apply (fold F3_def)
    apply (fold icand_def)
    apply (fold i1_def)
    apply (fold i2_def)
    apply (rule refl)
    done
  from pe unfold have mc_ne: "mc \<noteq> []" by (auto split: if_splits)
  from pe unfold mc_ne obtain chosen where
    ch: "resize (shuffle rng (Suc (Suc t)) icand) (i2 - 1) (0, 0) = Inr chosen"
    and r: "r = \<lparr>gen_obstacles = obs,
                    gen_items =
                      map (\<lambda>p. \<lparr>item_x = fst p, item_y = snd p, is_main = False\<rparr>) chosen @
                      [\<lparr>item_x = fst G, item_y = snd G, is_main = True\<rparr>],
                    gen_player_pos = P, gen_enemy_pos_list = E, gen_main_item_list = [G]\<rparr>"
    by (auto split: sum.splits)
  from resize_Inr [OF ch] have i2: "0 \<le> i2 - 1" by simp
  have "i2 \<le> int (length icand)" by (simp add: i2_def)
  with i2 have "nat (i2 - 1) \<le> length (shuffle rng (Suc (Suc t)) icand)"
    by (simp add: fair_shuffle(3) [OF f])
  with resize_Inr [OF ch] have chosen: "chosen = C" by (simp add: C_def)
  have F1: "F1 = corners n \<union> {P} \<union> set E" by (auto simp: F1_def fold_insert_set)
  have F3: "F3 = corners n \<union> {P} \<union> set E \<union> {G} \<union> set R"
    by (auto simp: F3_def F2_def F1 fold_insert_set)
  have len: "0 \<le> int (length mc) - 1" using mc_ne by (cases mc) auto
  from f have "\<forall>t lo hi. lo \<le> hi \<longrightarrow> lo \<le> rand_int rng t lo hi \<and> rand_int rng t lo hi \<le> hi"
    by (simp add: fair_def)
  with len have "0 \<le> rand_int rng t 0 (int (length mc) - 1) \<and>
      rand_int rng t 0 (int (length mc) - 1) \<le> int (length mc) - 1"
    by blast
  then have "nat (rand_int rng t 0 (int (length mc) - 1)) < length mc" by linarith
  then have "G \<in> set mc" unfolding G_def by (rule nth_mem)
  then have G: "G \<in> set all_positions" "G \<notin> F1" "is_not_edge G n" by (simp_all add: mc_def)
  have Rs: "set R \<subseteq> set rc" unfolding R_def
    using set_take_subset [of "nat k" "shuffle rng (Suc t) rc"] fair_shuffle(1) [OF f] by simp
  have Rd: "distinct R" unfolding R_def
    using fair_shuffle(2) [OF f, of "Suc t" rc] da by (simp add: rc_def)
  have Cs: "set C \<subseteq> set icand" unfolding C_def
    using set_take_subset [of "nat (i2 - 1)" "shuffle rng (Suc (Suc t)) icand"]
      fair_shuffle(1) [OF f] by simp
  have Cd: "distinct C" unfolding C_def
    using fair_shuffle(2) [OF f, of "Suc (Suc t)" icand] da by (simp add: icand_def)
  have dom0: "dom (emplace Map.empty G mb) = {G}" by (simp add: emplace_dom)
  have at0: "emplace Map.empty G mb G = Some mb" by (simp add: emplace_def)
  from place_rest_props [of "\<lfloor>of_int k * (3 / 10 :: real)\<rfloor>" R "emplace Map.empty G mb"]
  have o1: "dom obs = {G} \<union> set R" and o2: "obs G = Some mb"
    and o3: "\<forall>p ob. obs p = Some ob \<and> p \<noteq> G \<longrightarrow> \<not> is_main_block ob"
    unfolding obs_def [symmetric] dom0 using at0 by auto
  have F2: "F2 = corners n \<union> {P} \<union> set E \<union> {G}" by (auto simp: F2_def F1)
  have "k = min (max 0 (oc - 1)) (int (length rc))"
    by (auto simp: k_def k1_def min_def max_def Suc_le_eq)
  moreover have "int (length R) = k"
    using k by (simp add: R_def)
  ultimately have lR: "int (length R) = min (max 0 (oc - 1)) (int (length rc))"
    by simp
  have "i2 = min (max 1 ic) (int (length icand))"
    by (auto simp: i2_def i1_def min_def max_def Suc_le_eq)
  moreover have "int (length C) = i2 - 1"
    using i2 \<open>nat (i2 - 1) \<le> length (shuffle rng (Suc (Suc t)) icand)\<close>
    by (simp add: C_def)
  ultimately have lC: "int (length C) + 1 = min (max 1 ic) (int (length icand))"
    by simp
  have main: "gen_player_pos r = P \<and> gen_enemy_pos_list r = E \<and> gen_main_item_list r = [G] \<and>
    G \<in> set all_positions \<and> G \<notin> corners n \<and> G \<noteq> P \<and> G \<notin> set E \<and> is_not_edge G n \<and>
    distinct R \<and> set R \<subseteq> set all_positions \<and>
    set R \<inter> (corners n \<union> {P} \<union> set E \<union> {G}) = {} \<and>
    distinct C \<and> set C \<subseteq> set all_positions \<and>
    set C \<inter> (corners n \<union> {P} \<union> set E \<union> {G} \<union> set R) = {} \<and>
    dom (gen_obstacles r) = {G} \<union> set R \<and>
    gen_obstacles r G =
      Some ((new_Obstacle (fst G) (snd G) ''Destructible'' hp) \<lparr>is_main_block := True\<rparr>) \<and>
    (\<forall>p ob. gen_obstacles r p = Some ob \<and> p \<noteq> G \<longrightarrow> \<not> is_main_block ob) \<and>
    gen_items r =
      map (\<lambda>p. \<lparr>item_x = fst p, item_y = snd p, is_main = False\<rparr>) C @
      [\<lparr>item_x = fst G, item_y = snd G, is_main = True\<rparr>]"
    using G Rs Rd Cs Cd o1 o2 o3
    by (auto simp: r chosen F1 F3 F2_def rc_def icand_def mb_def)
  note lR' = lR [unfolded rc_def F2]
  note lC' = lC [unfolded icand_def F3]
  from main lR' lC' show ?thesis
    by (intro exI [of _ G] exI [of _ R] exI [of _ C]) (elim conjE, intro conjI; assumption)
qed


lemma place_entities_starts:
  assumes "place_entities rng n oc ic hp all_positions P E t = Inr r"
  shows "gen_player_pos r = P \<and> gen_enemy_pos_list r = E"
  using assms unfolding place_entities_def Let_def
  by (auto split: if_splits sum.splits)

lemma generate_Inr:
  assumes "generate_game_entities rng n oc ic ec hp = Some (Inr r)"
  shows "\<exists>P E t. pick_valid_positions rng (grid_positions n) 5 ec 0 = Some (Inr (P, E, t)) \<and>
    place_entities rng n oc ic hp (grid_positions n) P E t = Inr r"
  using assms unfolding generate_game_entities_def Let_def
  by (auto split: option.splits sum.splits)

lemma pick_retry:
  assumes "resize (shuffle rng t all_positions) (cnt + 1) (0, 0) = Inr (p # es)"
    and "\<exists>e \<in> set es. manhattan p e < d"
  shows "pick_valid_positions rng all_positions d cnt t =
    pick_valid_positions rng all_positions d cnt (Suc t)"
  using assms by (subst pick_valid_positions.simps) auto

lemma pick_accepts:
  assumes "resize (shuffle rng t all_positions) (cnt + 1) (0, 0) = Inr (p # es)"
    and "\<forall>e \<in> set es. d \<le> manhattan p e"
  shows "pick_valid_positions rng all_positions d cnt t = Some (Inr (p, es, Suc t))"
  using assms by (subst pick_valid_positions.simps) (auto simp: not_less)

text \<open>The batch returned is the first one that passes the check.\<close>

lemma pick_valid_positions_rounds:
  assumes "pick_valid_positions rng all_positions d cnt t = Some y"
  shows "\<forall>p es t'. y = Inr (p, es, t') \<longrightarrow>
    (\<exists>k. t \<le> k \<and> t' = Suc k \<and>
       resize (shuffle rng k all_positions) (cnt + 1) (0, 0) = Inr (p # es) \<and>
       (\<forall>j. t \<le> j \<and> j < k \<longrightarrow>
          (\<exists>q fs. resize (shuffle rng j all_positions) (cnt + 1) (0, 0) = Inr (q # fs) \<and>
             (\<exists>e \<in> set fs. manhattan q e < d))))"
proof (rule pick_valid_positions.raw_induct
    [where P = "\<lambda>rng all_positions d cnt t y. \<forall>p es t'. y = Inr (p, es, t') \<longrightarrow>
       (\<exists>k. t \<le> k \<and> t' = Suc k \<and>
          resize (shuffle rng k all_positions) (cnt + 1) (0, 0) = Inr (p # es) \<and>
          (\<forall>j. t \<le> j \<and> j < k \<longrightarrow>
             (\<exists>q fs. resize (shuffle rng j all_positions) (cnt + 1) (0, 0) = Inr (q # fs) \<and>
                (\<exists>e \<in> set fs. manhattan q e < d))))",
     OF _ assms])
  fix pick rng all_positions d cnt t y
  assume IH: "\<And>rng all_positions d cnt t y. pick rng all_positions d cnt t = Some y \<Longrightarrow>
      \<forall>p es t'. y = Inr (p, es, t') \<longrightarrow>
       (\<exists>k. t \<le> k \<and> t' = Suc k \<and>
          resize (shuffle rng k all_positions) (cnt + 1) (0, 0) = Inr (p # es) \<and>
          (\<forall>j. t \<le> j \<and> j < k \<longrightarrow>
             (\<exists>q fs. resize (shuffle rng j all_positions) (cnt + 1) (0, 0) = Inr (q # fs) \<and>
                (\<exists>e \<in> set fs. manhattan q e < d))))"
    and step: "(case resize (shuffle rng t all_positions) (cnt + 1) (0, 0) of
        Inl e \<Rightarrow> Some (Inl e)
      | Inr [] \<Rightarrow> Some (Inl Undefined_behaviour)
      | Inr (player_pos # enemies) \<Rightarrow>
          if \<forall>e \<in> set enemies. \<not> manhattan player_pos e < d
          then Some (Inr (player_pos, enemies, Suc t))
          else pick rng all_positions d cnt (Suc t)) = Some y"
  show "\<forall>p es t'. y = Inr (p, es, t') \<longrightarrow>
       (\<exists>k. t \<le> k \<and> t' = Suc k \<and>
          resize (shuffle rng k all_positions) (cnt + 1) (0, 0) = Inr (p # es) \<and>
          (\<forall>j. t \<le> j \<and> j < k \<longrightarrow>
             (\<exists>q fs. resize (shuffle rng j all_positions) (cnt + 1) (0, 0) = Inr (q # fs) \<and>
                (\<exists>e \<in> set fs. manhattan q e < d))))"
  proof (cases "resize (shuffle rng t all_positions) (cnt + 1) (0, 0)")
    case (Inl e)
    with step show ?thesis by auto
  next
    case (Inr picks)
    show ?thesis
    proof (cases picks)
      case Nil
      with step Inr show ?thesis by auto
    next
      case (Cons player_pos enemies)
      show ?thesis
      proof (cases "\<forall>e \<in> set enemies. \<not> manhattan player_pos e < d")
        case True
        with step Inr Cons have "y = Inr (player_pos, enemies, Suc t)" by simp
        with Inr Cons show ?thesis by auto
      next
        case False
        with step Inr Cons have "pick rng all_positions d cnt (Suc t) = Some y" by simp
        from IH [OF this] have later: "\<forall>p es t'. y = Inr (p, es, t') \<longrightarrow>
          (\<exists>k. Suc t \<le> k \<and> t' = Suc k \<and>
            resize (shuffle rng k all_positions) (cnt + 1) (0, 0) = Inr (p # es) \<and>
            (\<forall>j. Suc t \<le> j \<and> j < k \<longrightarrow>
               (\<exists>q fs. resize (shuffle rng j all_positions) (cnt + 1) (0, 0) = Inr (q # fs) \<and>
                  (\<exists>e \<in> set fs. manhattan q e < d))))" .
        show ?thesis
        proof (intro allI impI)
          fix p es t'
          assume "y = Inr (p, es, t')"
          with later obtain k where k: "Suc t \<le> k" "t' = Suc k"
            "resize (shuffle rng k all_positions) (cnt + 1) (0, 0) = Inr (p # es)"
            "\<forall>j. Suc t \<le> j \<and> j < k \<longrightarrow>
               (\<exists>q fs. resize (shuffle rng j all_positions) (cnt + 1) (0, 0) = Inr (q # fs) \<and>
                  (\<exists>e \<in> set fs. manhattan q e < d))"
            by blast
          have "\<exists>q fs. resize (shuffle rng j all_positions) (cnt + 1) (0, 0) = Inr (q # fs) \<and>
                  (\<exists>e \<in> set fs. manhattan q e < d)"
            if j: "t \<le> j" "j < k" for j
          proof (cases "j = t")
            case True
            with Inr Cons False show ?thesis by auto
          next
            case ne: False
            with j have "Suc t \<le> j" by simp
            with k(4) j(2) show ?thesis by blast
          qed
          with k(1,2,3) show "\<exists>k. t \<le> k \<and> t' = Suc k \<and>
            resize (shuffle rng k all_positions) (cnt + 1) (0, 0) = Inr (p # es) \<and>
            (\<forall>j. t \<le> j \<and> j < k \<longrightarrow>
               (\<exists>q fs. resize (shuffle rng j all_positions) (cnt + 1) (0, 0) = Inr (q # fs) \<and>
                  (\<exists>e \<in> set fs. manhattan q e < d)))"
            by (intro exI [of _ k]) auto
        qed
      qed
    qed
  qed
qed

text \<open>
  C4. When \<open>generate_game_entities\<close> returns, every enemy start lies at Manhattan
  distance at least 5 from the player start. The starts are resampled as a whole batch
  until this holds: round \<open>j\<close> takes the first cells of the \<open>j\<close>-th shuffle of all
  positions; the batch returned is that of the first round \<open>k\<close> whose batch passes the
  check, every earlier round having drawn a batch with an enemy closer than 5. In every
  round a batch that fails is dropped as a whole (the next round shuffles anew) and a
  batch that passes is returned.
\<close>

theorem starts_min_distance:
  assumes "generate_game_entities rng grid_size n_obstacles n_items n_enemies main_block_hp
    = Some (Inr r)"
  shows "(\<forall>e \<in> set (gen_enemy_pos_list r).
        5 \<le> \<bar>fst (gen_player_pos r) - fst e\<bar> + \<bar>snd (gen_player_pos r) - snd e\<bar>) \<and>
    (\<exists>k. resize (shuffle rng k (grid_positions grid_size)) (n_enemies + 1) (0, 0) =
        Inr (gen_player_pos r # gen_enemy_pos_list r) \<and>
       (\<forall>j. j < k \<longrightarrow>
          (\<exists>q fs. resize (shuffle rng j (grid_positions grid_size)) (n_enemies + 1) (0, 0) =
               Inr (q # fs) \<and>
             (\<exists>e \<in> set fs. \<bar>fst q - fst e\<bar> + \<bar>snd q - snd e\<bar> < 5)))) \<and>
    (\<forall>t p es. resize (shuffle rng t (grid_positions grid_size)) (n_enemies + 1) (0, 0) =
        Inr (p # es) \<and> (\<exists>e \<in> set es. \<bar>fst p - fst e\<bar> + \<bar>snd p - snd e\<bar> < 5) \<longrightarrow>
      pick_valid_positions rng (grid_positions grid_size) 5 n_enemies t =
      pick_valid_positions rng (grid_positions grid_size) 5 n_enemies (Suc t)) \<and>
    (\<forall>t p es. resize (shuffle rng t (grid_positions grid_size)) (n_enemies + 1) (0, 0) =
        Inr (p # es) \<and> (\<forall>e \<in> set es. 5 \<le> \<bar>fst p - fst e\<bar> + \<bar>snd p - snd e\<bar>) \<longrightarrow>
      pick_valid_positions rng (grid_positions grid_size) 5 n_enemies t =
      Some (Inr (p, es, Suc t)))"
proof -
  from generate_Inr [OF assms] obtain P E t where
    pk: "pick_valid_positions rng (grid_positions grid_size) 5 n_enemies 0 = Some (Inr (P, E, t))"
    and pe: "place_entities rng grid_size n_obstacles n_items main_block_hp
      (grid_positions grid_size) P E t = Inr r"
    by blast
  from place_entities_starts [OF pe] have PE: "gen_player_pos r = P" "gen_enemy_pos_list r = E"
    by simp_all
  from pick_valid_positions_Inr [OF pk] PE
  have 1: "\<forall>e \<in> set (gen_enemy_pos_list r).
        5 \<le> \<bar>fst (gen_player_pos r) - fst e\<bar> + \<bar>snd (gen_player_pos r) - snd e\<bar>"
    by (simp add: manhattan_def)
  from pick_valid_positions_rounds [OF pk] obtain k where
    k: "resize (shuffle rng k (grid_positions grid_size)) (n_enemies + 1) (0, 0) = Inr (P # E)"
    "\<forall>j. 0 \<le> j \<and> j < k \<longrightarrow>
       (\<exists>q fs. resize (shuffle rng j (grid_positions grid_size)) (n_enemies + 1) (0, 0) =
            Inr (q # fs) \<and> (\<exists>e \<in> set fs. manhattan q e < 5))"
    by blast
  have 2: "\<exists>k. resize (shuffle rng k (grid_positions grid_size)) (n_enemies + 1) (0, 0) =
        Inr (gen_player_pos r # gen_enemy_pos_list r) \<and>
       (\<forall>j. j < k \<longrightarrow>
          (\<exists>q fs. resize (shuffle rng j (grid_positions grid_size)) (n_enemies + 1) (0, 0) =
               Inr (q # fs) \<and>
             (\<exists>e \<in> set fs. \<bar>fst q - fst e\<bar> + \<bar>snd q - snd e\<bar> < 5)))"
    using k unfolding PE by (intro exI [of _ k]) (simp add: manhattan_def)
  have 3: "pick_valid_positions rng (grid_positions grid_size) 5 n_enemies t =
      pick_valid_positions rng (grid_positions grid_size) 5 n_enemies (Suc t)"
    if "resize (shuffle rng t (grid_positions grid_size)) (n_enemies + 1) (0, 0) = Inr (p # es)"
      and "\<exists>e \<in> set es. \<bar>fst p - fst e\<bar> + \<bar>snd p - snd e\<bar> < 5" for t p es
    using pick_retry [OF that(1), of 5] that(2) by (simp add: manhattan_def)
  have 4: "pick_valid_positions rng (grid_positions grid_size) 5 n_enemies t =
      Some (Inr (p, es, Suc t))"
    if "resize (shuffle rng t (grid_positions grid_size)) (n_enemies + 1) (0, 0) = Inr (p # es)"
      and "\<forall>e \<in> set es. 5 \<le> \<bar>fst p - fst e\<bar> + \<bar>snd p - snd e\<bar>" for t p es
    using pick_accepts [OF that(1), of 5] that(2) by (simp add: manhattan_def)
  from 1 2 3 4 show ?thesis by blast
qed

lemma generate_fair_Inr:
  assumes f: "fair rng"
    and g: "generate_game_entities rng n oc ic ec hp = Some (Inr r)"
  shows "\<exists>G R C.
    distinct (gen_player_pos r # gen_enemy_pos_list r) \<and> gen_main_item_list r = [G] \<and>
    in_grid n G \<and> G \<notin> corners n \<and> G \<noteq> gen_player_pos r \<and> G \<notin> set (gen_enemy_pos_list r) \<and>
    is_not_edge G n \<and>
    distinct R \<and>
    set R \<inter> (corners n \<union> {gen_player_pos r} \<union> set (gen_enemy_pos_list r) \<union> {G}) = {} \<and>
    distinct C \<and>
    set C \<inter> (corners n \<union> {gen_player_pos r} \<union> set (gen_enemy_pos_list r) \<union> {G} \<union> set R) = {} \<and>
    dom (gen_obstacles r) = {G} \<union> set R \<and>
    gen_obstacles r G =
      Some ((new_Obstacle (fst G) (snd G) ''Destructible'' hp) \<lparr>is_main_block := True\<rparr>) \<and>
    (\<forall>p ob. gen_obstacles r p = Some ob \<and> p \<noteq> G \<longrightarrow> \<not> is_main_block ob) \<and>
    gen_items r =
      map (\<lambda>p. \<lparr>item_x = fst p, item_y = snd p, is_main = False\<rparr>) C @
      [\<lparr>item_x = fst G, item_y = snd G, is_main = True\<rparr>] \<and>
    set R \<subseteq> set (grid_positions n) \<and>
    int (length R) = min (max 0 (oc - 1))
      (int (length (filter (\<lambda>p. p \<notin> corners n \<union> {gen_player_pos r} \<union> set (gen_enemy_pos_list r) \<union> {G})
         (grid_positions n)))) \<and>
    int (length C) + 1 = min (max 1 ic)
      (int (length (filter (\<lambda>p. p \<notin> corners n \<union> {gen_player_pos r} \<union> set (gen_enemy_pos_list r) \<union> {G} \<union> set R)
         (grid_positions n))))"
proof -
  from generate_Inr [OF g] obtain P E t where
    pk: "pick_valid_positions rng (grid_positions n) 5 ec 0 = Some (Inr (P, E, t))"
    and pe: "place_entities rng n oc ic hp (grid_positions n) P E t = Inr r"
    by blast
  from pick_valid_positions_Inr [OF pk] obtain k where
    far: "\<forall>e \<in> set E. 5 \<le> manhattan P e"
    and rz: "resize (shuffle rng k (grid_positions n)) (ec + 1) (0, 0) = Inr (P # E)"
    by blast
  have d: "distinct (P # E)" by (rule starts_distinct [OF f rz far])
  from place_entities_Inr [OF f distinct_grid_positions pe] obtain G R C where
    st: "gen_player_pos r = P" "gen_enemy_pos_list r = E"
    and G: "gen_main_item_list r = [G]" "G \<in> set (grid_positions n)" "G \<notin> corners n" "G \<noteq> P"
      "G \<notin> set E" "is_not_edge G n"
    and R: "distinct R" "set R \<inter> (corners n \<union> {P} \<union> set E \<union> {G}) = {}"
      "set R \<subseteq> set (grid_positions n)"
      "int (length R) = min (max 0 (oc - 1))
        (int (length (filter (\<lambda>p. p \<notin> corners n \<union> {P} \<union> set E \<union> {G}) (grid_positions n))))"
    and C: "distinct C" "set C \<inter> (corners n \<union> {P} \<union> set E \<union> {G} \<union> set R) = {}"
      "int (length C) + 1 = min (max 1 ic)
        (int (length (filter (\<lambda>p. p \<notin> corners n \<union> {P} \<union> set E \<union> {G} \<union> set R) (grid_positions n))))"
    and ob: "dom (gen_obstacles r) = {G} \<union> set R"
      "gen_obstacles r G =
        Some ((new_Obstacle (fst G) (snd G) ''Destructible'' hp) \<lparr>is_main_block := True\<rparr>)"
      "\<forall>p ob. gen_obstacles r p = Some ob \<and> p \<noteq> G \<longrightarrow> \<not> is_main_block ob"
    and it: "gen_items r =
      map (\<lambda>p. \<lparr>item_x = fst p, item_y = snd p, is_main = False\<rparr>) C @
      [\<lparr>item_x = fst G, item_y = snd G, is_main = True\<rparr>]"
    by blast
  from G(2) have Gg: "in_grid n G" by (simp add: set_grid_positions)
  from d G(1,3-6) Gg R C ob it show ?thesis
    unfolding st
    by (intro exI [of _ G] exI [of _ R] exI [of _ C]) (intro conjI; assumption)
qed


text \<open>
  C5. When \<open>generate_game_entities\<close> returns, the goal cell lies strictly inside the grid,
  differs from the player start, from every enemy start and from the corners, and holds
  an obstacle that is the main block: Destructible, with the given hit points. No other
  cell holds a main block, and the only item marked main is the one on the goal cell.
\<close>

theorem goal_guard_unique:
  assumes "fair rng"
    and "generate_game_entities rng grid_size n_obstacles n_items n_enemies main_block_hp
      = Some (Inr r)"
  shows "\<exists>goal. gen_main_item_list r = [goal] \<and>
    1 \<le> fst goal \<and> fst goal \<le> grid_size - 2 \<and> 1 \<le> snd goal \<and> snd goal \<le> grid_size - 2 \<and>
    goal \<noteq> gen_player_pos r \<and> goal \<notin> set (gen_enemy_pos_list r) \<and> goal \<notin> corners grid_size \<and>
    (\<exists>ob. gen_obstacles r goal = Some ob \<and> is_main_block ob \<and> type ob = ''Destructible'' \<and>
       health ob = main_block_hp) \<and>
    (\<forall>p ob. gen_obstacles r p = Some ob \<and> is_main_block ob \<longrightarrow> p = goal) \<and>
    filter is_main (gen_items r) = [\<lparr>item_x = fst goal, item_y = snd goal, is_main = True\<rparr>]"
proof -
  from generate_fair_Inr [OF assms] obtain G R C where
    G: "gen_main_item_list r = [G]" "G \<notin> corners grid_size" "G \<noteq> gen_player_pos r"
      "G \<notin> set (gen_enemy_pos_list r)" "is_not_edge G grid_size"
    and ob: "gen_obstacles r G =
        Some ((new_Obstacle (fst G) (snd G) ''Destructible'' main_block_hp) \<lparr>is_main_block := True\<rparr>)"
      "\<forall>p ob. gen_obstacles r p = Some ob \<and> p \<noteq> G \<longrightarrow> \<not> is_main_block ob"
    and it: "gen_items r =
      map (\<lambda>p. \<lparr>item_x = fst p, item_y = snd p, is_main = False\<rparr>) C @
      [\<lparr>item_x = fst G, item_y = snd G, is_main = True\<rparr>]"
    by blast
  have inner: "1 \<le> fst G \<and> fst G \<le> grid_size - 2 \<and> 1 \<le> snd G \<and> snd G \<le> grid_size - 2"
    using G(5) by (simp add: is_not_edge_def)
  have guard: "\<exists>ob. gen_obstacles r G = Some ob \<and> is_main_block ob \<and> type ob = ''Destructible'' \<and>
       health ob = main_block_hp"
    by (simp add: ob(1) new_Obstacle_def)
  have only: "\<forall>p ob. gen_obstacles r p = Some ob \<and> is_main_block ob \<longrightarrow> p = G"
    using ob(2) by blast
  have prim: "filter is_main (gen_items r) = [\<lparr>item_x = fst G, item_y = snd G, is_main = True\<rparr>]"
    by (simp add: it filter_map comp_def)
  from G(1-4) inner guard only prim show ?thesis by blast
qed

text \<open>
  What does hold of a layout that \<open>generate_game_entities\<close> returns: the player start,
  the enemy starts, the goal cell and the cells of the items that are not main are
  pairwise different; no obstacle lies on a start or on the cell of an item that is not
  main; the goal cell holds an obstacle and the main item; and no obstacle, item or goal
  lies on a corner of the grid.
\<close>

lemma placement_validity:
  assumes "fair rng"
    and "generate_game_entities rng grid_size n_obstacles n_items n_enemies main_block_hp
      = Some (Inr r)"
  shows "distinct (gen_player_pos r # gen_enemy_pos_list r @ gen_main_item_list r @
        map item_pos (filter (\<lambda>i. \<not> is_main i) (gen_items r))) \<and>
    dom (gen_obstacles r) \<inter>
      set (gen_player_pos r # gen_enemy_pos_list r @
        map item_pos (filter (\<lambda>i. \<not> is_main i) (gen_items r))) = {} \<and>
    set (gen_main_item_list r) \<subseteq> dom (gen_obstacles r) \<and>
    map item_pos (filter is_main (gen_items r)) = gen_main_item_list r \<and>
    (dom (gen_obstacles r) \<union> item_pos ` set (gen_items r) \<union> set (gen_main_item_list r)) \<inter>
      corners grid_size = {}"
proof -
  from generate_fair_Inr [OF assms] obtain G R C where
    d: "distinct (gen_player_pos r # gen_enemy_pos_list r)"
    and G: "gen_main_item_list r = [G]" "G \<notin> corners grid_size" "G \<noteq> gen_player_pos r"
      "G \<notin> set (gen_enemy_pos_list r)"
    and R: "set R \<inter> (corners grid_size \<union> {gen_player_pos r} \<union> set (gen_enemy_pos_list r) \<union> {G}) = {}"
    and C: "distinct C"
      "set C \<inter> (corners grid_size \<union> {gen_player_pos r} \<union> set (gen_enemy_pos_list r) \<union> {G} \<union> set R) = {}"
    and ob: "dom (gen_obstacles r) = {G} \<union> set R"
    and it: "gen_items r =
      map (\<lambda>p. \<lparr>item_x = fst p, item_y = snd p, is_main = False\<rparr>) C @
      [\<lparr>item_x = fst G, item_y = snd G, is_main = True\<rparr>]"
    by blast
  have np: "map item_pos (filter (\<lambda>i. \<not> is_main i) (gen_items r)) = C"
    by (simp add: it filter_map comp_def item_pos_def)
  have pr: "map item_pos (filter is_main (gen_items r)) = [G]"
    by (simp add: it filter_map comp_def item_pos_def)
  have "map item_pos (gen_items r) = C @ [G]"
    by (simp add: it comp_def item_pos_def)
  then have "set (map item_pos (gen_items r)) = set C \<union> {G}" by simp
  then have cells: "item_pos ` set (gen_items r) = set C \<union> {G}" by simp
  have 1: "distinct (gen_player_pos r # gen_enemy_pos_list r @ gen_main_item_list r @
        map item_pos (filter (\<lambda>i. \<not> is_main i) (gen_items r)))"
    unfolding np G(1) using d G(3,4) C by auto
  have 2: "dom (gen_obstacles r) \<inter>
      set (gen_player_pos r # gen_enemy_pos_list r @
        map item_pos (filter (\<lambda>i. \<not> is_main i) (gen_items r))) = {}"
    unfolding np ob using G(3,4) R C(2) by auto
  have 3: "(dom (gen_obstacles r) \<union> item_pos ` set (gen_items r) \<union> set (gen_main_item_list r)) \<inter>
      corners grid_size = {}"
    unfolding cells ob G(1) using G(2) R C(2) by auto
  from 1 2 3 pr show ?thesis by (simp add: G(1) ob)
qed

lemma fair_demo_rng: "fair demo_rng"
  by (auto simp: fair_def demo_rng_def split: list.splits)

lemma demo_generation:
  "\<exists>r. generate_game_entities demo_rng 6 4 3 1 40 = Some (Inr r) \<and>
     gen_player_pos r = (0, 0) \<and> gen_enemy_pos_list r = [(5, 5)] \<and>
     gen_main_item_list r = [(1, 1)]"
proof -
  have "case generate_game_entities demo_rng 6 4 3 1 40 of
      Some (Inr r) \<Rightarrow> gen_player_pos r = (0, 0) \<and> gen_enemy_pos_list r = [(5, 5)] \<and>
        gen_main_item_list r = [(1, 1)]
    | _ \<Rightarrow> False"
    by code_simp
  then show ?thesis by (auto split: option.splits sum.splits)
qed

text \<open>
  C3 fails on the code. \<^verbatim>\<open>forbidden\<close> is seeded with the four corners, and the goal,
  the obstacles and the items are chosen among the cells that are not forbidden; but
  \<^verbatim>\<open>pick_valid_positions\<close> draws the starts from all positions and never looks at
  \<^verbatim>\<open>forbidden\<close>. With the example source, which is fair (lemma \<open>fair_demo_rng\<close>), the
  call returns with the player on the corner \<open>(0, 0)\<close> and the enemy on the corner
  \<open>(5, 5)\<close> of a grid of side 6.
\<close>

theorem starts_on_corners:
  "(\<exists>r. generate_game_entities demo_rng 6 4 3 1 40 = Some (Inr r) \<and>
      gen_player_pos r = (0, 0) \<and> gen_enemy_pos_list r = [(5, 5)]) \<and>
   (0, 0) \<in> corners 6 \<and> (5, 5) \<in> corners 6"
  using demo_generation by (auto simp: corners_def)

lemma demo_first_round:
  "resize (shuffle demo_rng 0 (grid_positions 6)) (1 + 1) (0, 0) = Inr [(0, 0), (5, 5)]"
  by code_simp

theorem starts_min_distance_witness:
  "\<exists>r. generate_game_entities demo_rng 6 4 3 1 40 = Some (Inr r) \<and>
     gen_player_pos r = (0, 0) \<and> gen_enemy_pos_list r = [(5, 5)] \<and>
     5 \<le> \<bar>fst (gen_player_pos r) - 5\<bar> + \<bar>snd (gen_player_pos r) - 5\<bar> \<and>
     resize (shuffle demo_rng 0 (grid_positions 6)) (1 + 1) (0, 0) = Inr [(0, 0), (5, 5)] \<and>
     pick_valid_positions demo_rng (grid_positions 6) 5 1 0 = Some (Inr ((0, 0), [(5, 5)], 1))"
proof -
  from demo_generation obtain r where r: "generate_game_entities demo_rng 6 4 3 1 40 = Some (Inr r)"
    "gen_player_pos r = (0, 0)" "gen_enemy_pos_list r = [(5, 5)]" by blast
  note c4 = starts_min_distance [OF r(1)]
  from c4 r(3)
  have "5 \<le> \<bar>fst (gen_player_pos r) - 5\<bar> + \<bar>snd (gen_player_pos r) - 5\<bar>" by simp
  moreover from c4 have "resize (shuffle demo_rng 0 (grid_positions 6)) (1 + 1) (0, 0) =
        Inr ((0, 0) # [(5, 5)]) \<and>
      (\<forall>e \<in> set [(5, 5)]. 5 \<le> \<bar>fst (0 :: int, 0 :: int) - fst e\<bar> + \<bar>snd (0 :: int, 0 :: int) - snd e\<bar>) \<longrightarrow>
      pick_valid_positions demo_rng (grid_positions 6) 5 1 0 =
      Some (Inr ((0, 0), [(5, 5)], Suc 0))"
    by blast
  then have "pick_valid_positions demo_rng (grid_positions 6) 5 1 0 =
      Some (Inr ((0, 0), [(5, 5)], 1))"
    using demo_first_round by simp
  ultimately show ?thesis using r demo_first_round by blast
qed

theorem goal_guard_unique_witness:
  "\<exists>r. generate_game_entities demo_rng 6 4 3 1 40 = Some (Inr r) \<and>
     gen_main_item_list r = [(1, 1)] \<and>
     (\<exists>ob. gen_obstacles r (1, 1) = Some ob \<and> is_main_block ob \<and> type ob = ''Destructible'' \<and>
        health ob = 40) \<and>
     filter is_main (gen_items r) = [\<lparr>item_x = 1, item_y = 1, is_main = True\<rparr>]"
proof -
  from demo_generation obtain r where r: "generate_game_entities demo_rng 6 4 3 1 40 = Some (Inr r)"
    "gen_main_item_list r = [(1, 1)]" by blast
  from goal_guard_unique [OF fair_demo_rng r(1)] r(2)
  have "(\<exists>ob. gen_obstacles r (1, 1) = Some ob \<and> is_main_block ob \<and> type ob = ''Destructible'' \<and>
        health ob = 40) \<and>
     filter is_main (gen_items r) = [\<lparr>item_x = 1, item_y = 1, is_main = True\<rparr>]"
    by auto
  with r show ?thesis by blast
qed

lemma placement_validity_example:
  "\<exists>r. generate_game_entities demo_rng 6 4 3 1 40 = Some (Inr r) \<and>
     gen_main_item_list r = [(1, 1)] \<and>
     distinct (gen_player_pos r # gen_enemy_pos_list r @ gen_main_item_list r @
        map item_pos (filter (\<lambda>i. \<not> is_main i) (gen_items r))) \<and>
     (1, 1) \<in> dom (gen_obstacles r) \<and>
     dom (gen_obstacles r) \<inter> corners 6 = {}"
proof -
  from demo_generation obtain r where r: "generate_game_entities demo_rng 6 4 3 1 40 = Some (Inr r)"
    "gen_main_item_list r = [(1, 1)]" by blast
  from placement_validity [OF fair_demo_rng r(1)] r(2)
  have "distinct (gen_player_pos r # gen_enemy_pos_list r @ gen_main_item_list r @
        map item_pos (filter (\<lambda>i. \<not> is_main i) (gen_items r))) \<and>
     (1, 1) \<in> dom (gen_obstacles r) \<and>
     dom (gen_obstacles r) \<inter> corners 6 = {}"
    by auto
  with r show ?thesis by blast
qed

text \<open>
  C8 fails on the code. On a grid of side 6 with 36 obstacles asked for, no cell is left
  for an item: the item count is first raised to 1 and then cut to the 0 candidates, and
  \<^verbatim>\<open>resize(0 - 1)\<close> throws \<^verbatim>\<open>std::length_error\<close> instead of returning the
  main item alone.
\<close>

theorem items_floor_length_error:
  "generate_game_entities demo_rng 6 36 3 1 40 = Some (Inl Length_error)"
proof -
  have "case generate_game_entities demo_rng 6 36 3 1 40 of
      Some (Inl Length_error) \<Rightarrow> True | _ \<Rightarrow> False"
    by code_simp
  then show ?thesis by (auto split: option.splits sum.splits error.splits)
qed


text \<open>
  The same for every fair random source: a call that asks for at least as many obstacles
  as the grid has cells never returns normally.
\<close>

lemma length_grid_positions: "int (length (grid_positions n)) \<le> n * n"
proof (cases "0 \<le> n")
  case True
  then show ?thesis by (simp add: grid_positions_product)
next
  case False
  then show ?thesis by (simp add: grid_positions_product)
qed

lemma full_grid_never_returns:
  assumes f: "fair rng" and full: "grid_size * grid_size \<le> n_obstacles"
  shows "generate_game_entities rng grid_size n_obstacles n_items n_enemies main_block_hp
    \<noteq> Some (Inr r)"
proof
  assume g: "generate_game_entities rng grid_size n_obstacles n_items n_enemies main_block_hp
    = Some (Inr r)"
  let ?all = "grid_positions grid_size"
  from generate_fair_Inr [OF f g] obtain G R and C :: "GridPos list" where
    G: "in_grid grid_size G"
    and R: "distinct R" "set R \<subseteq> set ?all"
      "set R \<inter> (corners grid_size \<union> {gen_player_pos r} \<union> set (gen_enemy_pos_list r) \<union> {G}) = {}"
      "int (length R) = min (max 0 (n_obstacles - 1))
        (int (length (filter (\<lambda>p. p \<notin> corners grid_size \<union> {gen_player_pos r} \<union>
            set (gen_enemy_pos_list r) \<union> {G}) ?all)))"
    and C: "int (length C) + 1 = min (max 1 n_items)
        (int (length (filter (\<lambda>p. p \<notin> corners grid_size \<union> {gen_player_pos r} \<union>
            set (gen_enemy_pos_list r) \<union> {G} \<union> set R) ?all)))"
    by blast
  define F where "F = corners grid_size \<union> {gen_player_pos r} \<union> set (gen_enemy_pos_list r) \<union> {G}"
  define rc where "rc = filter (\<lambda>p. p \<notin> F) ?all"
  have Gall: "G \<in> set ?all" using G by (simp add: set_grid_positions)
  have "length rc < length ?all"
    unfolding rc_def by (rule length_filter_less [OF Gall]) (simp add: F_def)
  with length_grid_positions [of grid_size] full have "int (length rc) \<le> n_obstacles - 1"
    by linarith
  with R(4) have lR: "length R = length rc" by (simp add: rc_def F_def)
  have sub: "set R \<subseteq> set rc" using R(2,3) by (auto simp: rc_def F_def)
  have drc: "distinct rc" by (simp add: rc_def distinct_grid_positions)
  have "card (set R) = card (set rc)"
    using lR R(1) drc by (simp add: distinct_card)
  with sub have eq: "set R = set rc" by (simp add: card_subset_eq)
  have "filter (\<lambda>p. p \<notin> F \<union> set R) ?all = []"
    unfolding eq by (auto simp: rc_def filter_empty_conv)
  with C have "int (length C) + 1 \<le> 0" by (simp add: F_def)
  then show False by simp
qed

section \<open>Steps that do not lower the cost\<close>

lemma k_factor_nonneg:
  assumes "- 10 < h"
  shows "Fin 0 \<le> fceil (float_of_int h / float_of_int ENEMY_ATTACK) * tenth"
proof -
  define q where "q = float_of_int h / Fin 10"
  have h9: "- 9 \<le> real_of_int h" using assms by linarith
  have q: "q = PosInf \<or> (\<exists>v. q = Fin v \<and> - 1 < v)"
  proof (cases "real_of_int h" rule: to_float_cases)
    case fin
    have r9: "- 9 \<le> rnd (real_of_int h)"
      using rnd_mono [OF h9] rnd_int [of "- 9"] by simp
    then have "- 9 / 10 \<le> rnd (real_of_int h) / 10" by simp
    from rnd_mono [OF this] have "- (7549747 / 8388608) \<le> rnd (rnd (real_of_int h) / 10)"
      by (simp add: rnd_neg_nine_tenths)
    then have low: "- 1 < rnd (rnd (real_of_int h) / 10)" by linarith
    have qe: "q = to_float (rnd (real_of_int h) / 10)"
      by (simp add: q_def float_of_int_def fin(1))
    show ?thesis
    proof (cases "rnd (real_of_int h) / 10" rule: to_float_cases)
      case fin': fin
      with qe low show ?thesis by simp
    next
      case pos
      with qe show ?thesis by simp
    next
      case neg
      with low show ?thesis by simp
    qed
  next
    case pos
    then show ?thesis by (simp add: q_def float_of_int_def)
  next
    case neg
    have "- 9 \<le> rnd (real_of_int h)"
      using rnd_mono [OF h9] rnd_int [of "- 9"] by simp
    with neg(2) show ?thesis by simp
  qed
  have "Fin 0 \<le> fceil q * tenth"
    using q
  proof
    assume "q = PosInf"
    then show ?thesis by (simp add: tenth_value)
  next
    assume "\<exists>v. q = Fin v \<and> - 1 < v"
    then obtain v where v: "q = Fin v" "- 1 < v" by blast
    then have "0 \<le> \<lceil>v\<rceil>" by linarith
    then have "0 \<le> real_of_int \<lceil>v\<rceil> * (13421773 / 134217728)" by simp
    from nonneg_float_le [OF nonneg_to_float [OF this]] v(1) show ?thesis
      by (simp add: tenth_value)
  qed
  then show ?thesis by (simp add: q_def float_of_int_attack)
qed

lemma cost_nonneg:
  assumes "\<forall>k w. weights g k = Some w \<longrightarrow> 0 \<le> w"
  shows "Fin 0 \<le> cost g a b"
  using assms by (auto simp: cost_def zero_cfloat_def split: option.splits)

lemma new_cost_nonneg:
  assumes nn: "Fin 0 \<le> cost g current n"
    and hp: "\<forall>p ob. obstacles p = Some ob \<and> type ob = ''Destructible'' \<longrightarrow> - 10 < health ob"
    and c: "nonneg_float c" and cur: "csf current = Some c"
    and nc: "new_cost_of g obstacles csf current n = Some nc"
  shows "nonneg_float nc \<and> c \<le> nc"
proof -
  have static: "nonneg_float (c + cost g current n) \<and> c \<le> c + cost g current n"
    by (rule nonneg_add [OF c nn])
  show ?thesis
  proof (cases "\<exists>ob. obstacles n = Some ob \<and> type ob = ''Destructible''")
    case True
    then obtain ob where ob: "obstacles n = Some ob" "type ob = ''Destructible''" by blast
    with hp have "- 10 < health ob" by blast
    from k_factor_nonneg [OF this]
    have k: "Fin 0 \<le> fceil (float_of_int (health ob) / float_of_int ENEMY_ATTACK) * tenth" .
    have one: "nonneg_float (c + Fin 1)" "c \<le> c + Fin 1"
      using nonneg_add [OF c, of "Fin 1"] by simp_all
    from nonneg_add [OF one(1) k] one(2)
    have "nonneg_float (c + Fin 1 + fceil (float_of_int (health ob) / float_of_int ENEMY_ATTACK) * tenth)"
      "c \<le> c + Fin 1 + fceil (float_of_int (health ob) / float_of_int ENEMY_ATTACK) * tenth"
      by (auto intro: le_cfloat_trans)
    moreover have "nc = c + Fin 1 + fceil (float_of_int (health ob) / float_of_int ENEMY_ATTACK) * tenth"
      using nc ob cur by (simp add: new_cost_of_def subscript_def Let_def)
    ultimately show ?thesis by simp
  next
    case False
    with nc cur have "nc = c + cost g current n"
      by (auto simp: new_cost_of_def subscript_def Let_def split: option.splits if_splits)
    with static show ?thesis by simp
  qed
qed

section \<open>The predecessors form a tree\<close>

lemma tree_invD:
  assumes "tree_inv g start st"
  shows "basic_inv g start st"
    and "cost_so_far st start = Some (Fin 0)" and "came_from st start = Some start"
    and "\<And>n c. cost_so_far st n = Some c \<Longrightarrow> nonneg_float c"
    and "\<And>n u. n \<noteq> start \<Longrightarrow> came_from st n = Some u \<Longrightarrow>
         \<exists>cu cn. cost_so_far st u = Some cu \<and> cost_so_far st n = Some cn \<and> cu \<le> cn"
    and "acyclic (pred_rel (came_from st) start)"
  using assms unfolding tree_inv_def by blast+

lemma pred_rel_cost_mono:
  assumes inv: "tree_inv g start st"
    and r: "(a, b) \<in> (pred_rel (came_from st) start)\<^sup>*"
  shows "a = b \<or> (\<exists>ca cb. cost_so_far st a = Some ca \<and> cost_so_far st b = Some cb \<and> ca \<le> cb)"
  using r
proof (induction rule: rtrancl_induct)
  case base
  then show ?case by simp
next
  case (step y z)
  from step.hyps(2) have z: "z \<noteq> start" "came_from st z = Some y" by (simp_all add: pred_rel_def)
  from tree_invD(5) [OF inv z] obtain cy cz where
    c: "cost_so_far st y = Some cy" "cost_so_far st z = Some cz" "cy \<le> cz" by blast
  with step.IH show ?case by (auto intro: le_cfloat_trans)
qed

lemma tree_inv_visit:
  assumes nn: "\<forall>u v. v \<in> set (neighbors g u) \<longrightarrow> Fin 0 \<le> cost g u v"
    and hp: "\<forall>p ob. obstacles p = Some ob \<and> type ob = ''Destructible'' \<longrightarrow> - 10 < health ob"
    and inv: "tree_inv g start st"
    and cur: "cost_so_far st current = Some c" and nb: "n \<in> set (neighbors g current)"
    and vis: "visit_neighbor g goal obstacles current st n = Inr s'"
  shows "tree_inv g start s'"
  using vis
proof (cases rule: visit_neighbor_Inr)
  case same
  with inv show ?thesis by simp
next
  case (better nc h)
  note inv' = tree_invD [OF inv]
  from nn nb have "Fin 0 \<le> cost g current n" by blast
  from new_cost_nonneg [OF this hp inv'(4) [OF cur] cur better(1)]
  have new0: "nonneg_float nc" and cle: "c \<le> nc" by simp_all
  have n_cur: "n \<noteq> current"
  proof
    assume "n = current"
    with better(2) cur have "nc < c" by simp
    with le_cfloat_not_less [OF cle] show False by simp
  qed
  have n_start: "n \<noteq> start"
  proof
    assume "n = start"
    with better(2) inv'(2) have "nc < Fin 0" by simp
    with le_cfloat_not_less [OF nonneg_float_le [OF new0]] show False by simp
  qed
  have 0: "basic_inv g start s'"
    unfolding better(4)
    by (rule basic_inv_record [OF inv'(1) neighbor_in_nodes [OF nb] new_cost_in_values [OF better(1)]])
  have 1: "cost_so_far s' start = Some (Fin 0)" "came_from s' start = Some start"
    using inv'(2,3) n_start by (simp_all add: better(4))
  have 4: "\<forall>m cm. cost_so_far s' m = Some cm \<longrightarrow> nonneg_float cm"
    using inv'(4) new0 by (auto simp: better(4))
  have 5: "\<forall>m u. m \<noteq> start \<and> came_from s' m = Some u \<longrightarrow>
      (\<exists>cu cm. cost_so_far s' u = Some cu \<and> cost_so_far s' m = Some cm \<and> cu \<le> cm)"
  proof (intro allI impI, elim conjE)
    fix m u
    assume m: "m \<noteq> start" "came_from s' m = Some u"
    show "\<exists>cu cm. cost_so_far s' u = Some cu \<and> cost_so_far s' m = Some cm \<and> cu \<le> cm"
    proof (cases "m = n")
    case True
    with m have "u = current" by (simp add: better(4))
    with True cur n_cur cle show ?thesis by (simp add: better(4))
  next
    case False
    with m have "came_from st m = Some u" by (simp add: better(4))
    from inv'(5) [OF m(1) this] obtain cu cm where
      o: "cost_so_far st u = Some cu" "cost_so_far st m = Some cm" "cu \<le> cm" by blast
    show ?thesis
    proof (cases "u = n")
      case True
      with o(1) better(2) have "nc < cu" by simp
      from less_cfloat_le [OF less_le_cfloat_trans [OF this o(3)]] True False o(2)
      show ?thesis by (simp add: better(4))
    next
      case un: False
      with False o show ?thesis by (simp add: better(4))
    qed
  qed
  qed
  have 6: "acyclic (pred_rel (came_from s') start)"
  proof -
    let ?R = "pred_rel (came_from st) start"
    have sub: "pred_rel (came_from s') start \<subseteq> insert (current, n) ?R"
      by (auto simp: pred_rel_def better(4) split: if_splits)
    have "(n, current) \<notin> ?R\<^sup>*"
    proof
      assume "(n, current) \<in> ?R\<^sup>*"
      from pred_rel_cost_mono [OF inv this] n_cur cur
      obtain cn where cn: "cost_so_far st n = Some cn" "cn \<le> c" by auto
      with better(2) have "nc < cn" by simp
      from less_le_cfloat_trans [OF less_le_cfloat_trans [OF this cn(2)] cle]
      show False by (simp add: less_cfloat_irrefl)
    qed
    with inv'(6) have "acyclic (insert (current, n) ?R)" by (simp add: acyclic_insert)
    then show ?thesis by (rule acyclic_subset [OF _ sub])
  qed
  show ?thesis unfolding tree_inv_def using 0 1 4 5 6 by simp
qed

lemma tree_inv_pop: "tree_inv g start st \<Longrightarrow> tree_inv g start (pop_at i st)"
  using basic_inv_pop [of g start st i] by (simp add: tree_inv_def pop_at_fields)

lemma tree_inv_init: "tree_inv g start (init_state start)"
  using basic_inv_init [of g start] nonneg_float_zero
  by (auto simp: tree_inv_def init_state_def pred_rel_def acyclic_def
      dest: tranclD split: if_splits)

lemma search_tree:
  assumes "picks_entry pick" and "finite (dom (edges graph))" and "heuristic_defined graph goal"
    and nn: "\<forall>k w. weights graph k = Some w \<longrightarrow> 0 \<le> w"
    and hp: "\<forall>p ob. obstacles p = Some ob \<and> type ob = ''Destructible'' \<longrightarrow> - 10 < health ob"
  shows "\<exists>st. a_star_search pick graph start goal obstacles =
      Some (Inr (came_from st, cost_so_far st)) \<and> tree_inv graph start st"
proof -
  have "\<exists>r. a_star_loop pick graph goal obstacles (init_state start) = Some (Inr r) \<and>
      tree_inv graph start r"
  proof (rule a_star_loop_total [where I = "tree_inv graph start" and start = start,
        OF assms(1-3)])
    show "\<And>s. tree_inv graph start s \<Longrightarrow> basic_inv graph start s"
      by (simp add: tree_inv_def)
    show "\<And>s i. tree_inv graph start s \<Longrightarrow> tree_inv graph start (pop_at i s)"
      by (rule tree_inv_pop)
    show "\<And>s current c n s'. tree_inv graph start s \<Longrightarrow>
        cost_so_far s current = Some c \<Longrightarrow> n \<in> set (neighbors graph current) \<Longrightarrow>
        visit_neighbor graph goal obstacles current s n = Inr s' \<Longrightarrow> tree_inv graph start s'"
      by (rule tree_inv_visit [OF _ hp]) (simp_all add: cost_nonneg [OF nn])
    show "tree_inv graph start (init_state start)"
      by (rule tree_inv_init)
  qed
  then show ?thesis by (auto simp: a_star_search_def)
qed

text \<open>Following the predecessors back\<close>

lemma pred_rel_wf:
  assumes fin: "finite (dom (edges g))" and inv: "tree_inv g start st"
  shows "wf (pred_rel (came_from st) start)"
proof -
  note inv' = tree_invD [OF inv]
  have d: "dom (cost_so_far st) \<subseteq> nodes g start" using inv'(1) by (simp add: basic_inv_def)
  have "pred_rel (came_from st) start \<subseteq> nodes g start \<times> nodes g start"
  proof
    fix e assume "e \<in> pred_rel (came_from st) start"
    then obtain u n where e: "e = (u, n)" "n \<noteq> start" "came_from st n = Some u"
      by (auto simp: pred_rel_def)
    from inv'(5) [OF e(2,3)] d e(1) show "e \<in> nodes g start \<times> nodes g start" by auto
  qed
  then have "finite (pred_rel (came_from st) start)"
    by (rule finite_subset) (simp add: finite_nodes [OF fin])
  then show ?thesis using inv'(6) by (rule finite_acyclic_wf)
qed

lemma walk_back_total:
  assumes fin: "finite (dom (edges g))" and inv: "tree_inv g start st"
    and n: "cost_so_far st n = Some c"
  shows "\<exists>q. \<forall>path. walk_back (came_from st) start n path = Some (Inr (path @ q))"
  using n
proof (induction n arbitrary: c rule: wf_induct_rule [OF pred_rel_wf [OF fin inv]])
  case (1 n)
  note inv' = tree_invD [OF inv]
  show ?case
  proof (cases "n = start")
    case True
    have "\<forall>path. walk_back (came_from st) start n path = Some (Inr (path @ []))"
      using True by (simp add: walk_back.simps)
    then show ?thesis by blast
  next
    case False
    from 1(2) inv'(1) have "n \<in> dom (came_from st)" unfolding basic_inv_def by blast
    then obtain u where u: "came_from st n = Some u" by blast
    from inv'(5) [OF False u] obtain cu where cu: "cost_so_far st u = Some cu" by blast
    from False u have "(u, n) \<in> pred_rel (came_from st) start" by (simp add: pred_rel_def)
    from 1(1) [OF this cu] obtain q where
      q: "\<forall>path. walk_back (came_from st) start u path = Some (Inr (path @ q))" by blast
    have "\<forall>path. walk_back (came_from st) start n path = Some (Inr (path @ (n # q)))"
    proof
      fix path
      have "walk_back (came_from st) start n path =
          walk_back (came_from st) start u (path @ [n])"
        using False u by (subst walk_back.simps) simp
      with q show "walk_back (came_from st) start n path = Some (Inr (path @ (n # q)))"
        by simp
    qed
    then show ?thesis by blast
  qed
qed

lemma reconstruct_path_total:
  assumes fin: "finite (dom (edges g))" and inv: "tree_inv g start st"
  shows "\<exists>p. reconstruct_path (came_from st) start goal = Some (Inr p)"
proof (cases "came_from st goal")
  case None
  then show ?thesis by (simp add: reconstruct_path_def)
next
  case (Some u)
  then have "goal \<in> dom (cost_so_far st)"
    using tree_invD(1) [OF inv] unfolding basic_inv_def by blast
  then obtain c where "cost_so_far st goal = Some c" by blast
  from walk_back_total [OF fin inv this] obtain q where
    "walk_back (came_from st) start goal [] = Some (Inr q)" by force
  with Some show ?thesis by (simp add: reconstruct_path_def)
qed

text \<open>
  C10 as amended. On every finite graph, whatever its weights and the obstacle map,
  \<open>a_star_search\<close> returns, provided \<^verbatim>\<open>heuristic\<close> does not overflow on the cells of
  the graph: a cell is recorded again only with a smaller cost, and a \<^verbatim>\<open>float\<close> has
  finitely many values. When moreover no weight is negative or NaN and every
  Destructible obstacle has health above \<open>-10\<close> (so that \<open>ceil(h / 10) * 0.1\<close> is not
  negative), \<open>reconstruct_path\<close> on the result returns a path: the predecessors recorded
  in \<open>came_from\<close> contain no cycle.
\<close>

theorem search_terminates:
  assumes "picks_entry pick" and "finite (dom (edges graph))" and "heuristic_defined graph goal"
  shows "\<exists>cf csf. a_star_search pick graph start goal obstacles = Some (Inr (cf, csf)) \<and>
    ((\<forall>k w. weights graph k = Some w \<longrightarrow> 0 \<le> w) \<and>
     (\<forall>p ob. obstacles p = Some ob \<and> type ob = ''Destructible'' \<longrightarrow> - 10 < health ob) \<longrightarrow>
     (\<exists>path. reconstruct_path cf start goal = Some (Inr path)))"
proof (cases "(\<forall>k w. weights graph k = Some w \<longrightarrow> 0 \<le> w) \<and>
     (\<forall>p ob. obstacles p = Some ob \<and> type ob = ''Destructible'' \<longrightarrow> - 10 < health ob)")
  case True
  from search_tree [OF assms, of obstacles start] True obtain st where
    st: "a_star_search pick graph start goal obstacles = Some (Inr (came_from st, cost_so_far st))"
    "tree_inv graph start st" by blast
  from reconstruct_path_total [OF assms(2) st(2), of goal] st(1) show ?thesis by blast
next
  case False
  from search_charged [OF assms, of start obstacles] False show ?thesis by blast
qed

lemma jump_graph_finite: "finite (dom (edges jump_graph))"
proof -
  have "dom (edges jump_graph) \<subseteq> {(0, 0), (100, 0)}"
    by (auto simp: jump_graph_def add_edge_def empty_graph_def split: if_splits)
  then show ?thesis by (rule finite_subset) simp
qed

lemma jump_graph_heuristic: "heuristic_defined jump_graph (1, 0)"
  by (auto simp: heuristic_defined_def jump_graph_def add_edge_def empty_graph_def neighbors_def
      heuristic_def int_range_def INT_MIN_def INT_MAX_def Let_def split: if_splits)

lemma jump_graph_nonneg: "\<forall>k w. weights jump_graph k = Some w \<longrightarrow> 0 \<le> w"
  by (auto simp: jump_graph_def add_edge_def empty_graph_def zero_cfloat_def split: if_splits)

lemma jump_search:
  "case a_star_search first_min jump_graph (0, 0) (1, 0) Map.empty of
     Some (Inr (cf, csf)) \<Rightarrow> reconstruct_path cf (0, 0) (1, 0) = Some (Inr [(0, 0), (1, 0)])
   | _ \<Rightarrow> False"
  by code_simp

theorem search_terminates_witness:
  "\<exists>cf csf. a_star_search first_min jump_graph (0, 0) (1, 0) Map.empty = Some (Inr (cf, csf)) \<and>
    (\<exists>path. reconstruct_path cf (0, 0) (1, 0) = Some (Inr path)) \<and>
    reconstruct_path cf (0, 0) (1, 0) = Some (Inr [(0, 0), (1, 0)])"
proof -
  from search_terminates [where start = "(0, 0)" and obstacles = Map.empty,
      OF picks_entry_first_min jump_graph_finite jump_graph_heuristic] jump_graph_nonneg
  obtain cf csf where
    run: "a_star_search first_min jump_graph (0, 0) (1, 0) Map.empty = Some (Inr (cf, csf))"
    and p: "\<exists>path. reconstruct_path cf (0, 0) (1, 0) = Some (Inr path)"
    by auto
  from jump_search run have "reconstruct_path cf (0, 0) (1, 0) = Some (Inr [(0, 0), (1, 0)])"
    by simp
  with run p show ?thesis by blast
qed

lemma loop_search:
  "case a_star_search first_min loop_graph (0, 0) (0, 1) loop_obstacles of
     Some (Inr (cf, csf)) \<Rightarrow>
       cf (0, 1) = Some (100, 0) \<and> cf (100, 0) = Some (0, 2) \<and> cf (0, 2) = Some (100, 0)
   | _ \<Rightarrow> False"
  by code_simp


lemma walk_back_cycle:
  assumes a: "cf a = Some b" and b: "cf b = Some a" and "a \<noteq> start" and "b \<noteq> start"
  shows "walk_back cf start a path = None"
proof (rule ccontr)
  assume "walk_back cf start a path \<noteq> None"
  then obtain y where y: "walk_back cf start a path = Some y" by blast
  have "cf' = cf \<and> start' = start \<and> (cur = a \<or> cur = b) \<longrightarrow> False"
    if "walk_back cf' start' cur path' = Some y'" for cf' start' cur path' y'
  proof (rule walk_back.raw_induct
      [where P = "\<lambda>cf' start' cur path' y'. cf' = cf \<and> start' = start \<and> (cur = a \<or> cur = b) \<longrightarrow> False",
       OF _ that])
    fix wb cf' start' cur path' y'
    assume IH: "\<And>cf' start' cur path' y'. wb cf' start' cur path' = Some y' \<Longrightarrow>
        cf' = cf \<and> start' = start \<and> (cur = a \<or> cur = b) \<longrightarrow> False"
      and body: "(if cur \<noteq> start' then
          case cf' cur of None \<Rightarrow> Some (Inl Out_of_range)
          | Some p \<Rightarrow> wb cf' start' p (path' @ [cur])
        else Some (Inr path')) = Some y'"
    show "cf' = cf \<and> start' = start \<and> (cur = a \<or> cur = b) \<longrightarrow> False"
    proof (intro impI, elim conjE)
      assume eq: "cf' = cf" "start' = start" and cur: "cur = a \<or> cur = b"
      from cur show False
      proof
        assume "cur = a"
        with body eq assms have "wb cf start b (path' @ [a]) = Some y'" by simp
        from IH [OF this] show False by simp
      next
        assume "cur = b"
        with body eq assms have "wb cf start a (path' @ [b]) = Some y'" by simp
        from IH [OF this] show False by simp
      qed
    qed
  qed
  from this [OF y] show False by simp
qed

lemma loop_graph_positive: "\<not> (\<exists>k w. weights loop_graph k = Some w \<and> \<not> 0 < w)"
  by (auto simp: loop_graph_def add_edge_def empty_graph_def zero_cfloat_def split: if_splits)

lemma loop_graph_finite: "finite (dom (edges loop_graph))"
proof -
  have "dom (edges loop_graph) \<subseteq> {(0, 0), (100, 0), (0, 2)}"
    by (auto simp: loop_graph_def add_edge_def empty_graph_def split: if_splits)
  then show ?thesis by (rule finite_subset) simp
qed

text \<open>
  C10 as stated fails: all weights of the graph are positive, and with the obstacle of
  health \<open>-200\<close> the search returns with the goal recorded, \<open>came_from\<close> sends
  \<open>(100, 0)\<close> to \<open>(0, 2)\<close> and \<open>(0, 2)\<close> to \<open>(100, 0)\<close>, and \<open>reconstruct_path\<close> runs
  forever.
\<close>

theorem reconstruct_cycle_counterexample:
  "finite (dom (edges loop_graph)) \<and> \<not> (\<exists>k w. weights loop_graph k = Some w \<and> \<not> 0 < w) \<and>
   (\<exists>cf csf. a_star_search first_min loop_graph (0, 0) (0, 1) loop_obstacles =
        Some (Inr (cf, csf)) \<and>
      cf (0, 1) \<noteq> None \<and> reconstruct_path cf (0, 0) (0, 1) = None)"
proof -
  from loop_search obtain cf csf where
    run: "a_star_search first_min loop_graph (0, 0) (0, 1) loop_obstacles = Some (Inr (cf, csf))"
    and cf: "cf (0, 1) = Some (100, 0)" "cf (100, 0) = Some (0, 2)" "cf (0, 2) = Some (100, 0)"
    by (auto split: option.splits sum.splits)
  have "walk_back cf (0, 0) (100, 0) [(0, 1)] = None"
    by (rule walk_back_cycle [OF cf(2,3)]) simp_all
  then have "walk_back cf (0, 0) (0, 1) [] = None"
    using cf(1) by (subst walk_back.simps) simp
  then have "reconstruct_path cf (0, 0) (0, 1) = None"
    using cf(1) by (simp add: reconstruct_path_def)
  with run cf(1) loop_graph_finite loop_graph_positive show ?thesis by auto
qed

section \<open>The least cost: order and exact sums\<close>

lemma heap_top_picks: "heap_top pick \<Longrightarrow> picks_entry pick"
  by (simp add: heap_top_def picks_entry_def)

lemma to_float_not_NaN: "to_float x \<noteq> NaN"
  by (cases x rule: to_float_cases) simp_all

lemma to_float_mono:
  assumes "x \<le> y"
  shows "to_float x \<le> to_float y"
proof -
  note m = rnd_mono [OF assms]
  show ?thesis
  proof (cases x rule: to_float_cases)
    case fin
    note x = fin
    show ?thesis
    proof (cases y rule: to_float_cases)
      case fin
      with x m show ?thesis by simp
    next
      case pos
      with x show ?thesis by simp
    next
      case neg
      with x m show ?thesis by simp
    qed
  next
    case pos
    note x = pos
    show ?thesis
    proof (cases y rule: to_float_cases)
      case fin
      with x m show ?thesis by simp
    next
      case pos
      with x show ?thesis by simp
    next
      case neg
      with x m show ?thesis by simp
    qed
  next
    case neg
    then show ?thesis using to_float_not_NaN [of y] by (cases "to_float y") simp_all
  qed
qed

lemma nn_not_less: "Fin 0 \<le> a \<Longrightarrow> Fin 0 \<le> b \<Longrightarrow> \<not> a < b \<Longrightarrow> b \<le> a"
  by (cases a; cases b) auto

lemma le_nn: "Fin 0 \<le> a \<Longrightarrow> a \<le> b \<Longrightarrow> Fin 0 \<le> b"
  by (rule le_cfloat_trans)

lemma le_self: "Fin 0 \<le> a \<Longrightarrow> a \<le> a"
  by (cases a) auto

lemma le_right_self: "(a :: cfloat) \<le> b \<Longrightarrow> b \<le> b"
  by (cases a; cases b) auto

lemma to_float_le_PosInf: "to_float x \<le> PosInf"
  by (cases x rule: to_float_cases) simp_all

lemma plus_nn: "Fin 0 \<le> a \<Longrightarrow> Fin 0 \<le> w \<Longrightarrow> Fin 0 \<le> a + w"
proof (cases a; cases w)
  fix x y assume "a = Fin x" "w = Fin y" "Fin 0 \<le> a" "Fin 0 \<le> w"
  then show "Fin 0 \<le> a + w" using nonneg_float_le [OF nonneg_to_float [of "x + y"]] by simp
qed simp_all

lemma plus_mono_left:
  assumes "a \<le> b" and "Fin 0 \<le> a" and "Fin 0 \<le> w"
  shows "a + w \<le> b + w"
proof (cases "\<exists>x y z. a = Fin x \<and> b = Fin y \<and> w = Fin z")
  case True
  then obtain x y z where "a = Fin x" "b = Fin y" "w = Fin z" by blast
  with assms(1) show ?thesis using to_float_mono [of "x + z" "y + z"] by simp
next
  case False
  have "a + w \<le> a + w" using plus_nn [OF assms(2,3)] by (rule le_self)
  with False assms show ?thesis
    by (cases a; cases b; cases w) (simp_all add: to_float_le_PosInf)
qed

lemma fin_add_exact:
  assumes "n + m \<le> 16777216"
  shows "Fin (real n) + Fin (real m) = Fin (real (n + m))"
proof -
  have "\<bar>int (n + m)\<bar> \<le> 16777216" using assms by simp
  from rnd_int [OF this] have r: "rnd (real (n + m)) = real (n + m)" by simp
  have "\<bar>real (n + m)\<bar> \<le> 16777216" using assms by simp
  from to_float_exact [OF r this] show ?thesis by simp
qed

lemma fin_nat_exact: "t \<le> 16777216 \<Longrightarrow> to_float (real t) = Fin (real t)"
  using fin_add_exact [of t 0] by (simp add: to_float_def rnd_zero)

lemma manhattan_nonneg: "0 \<le> manhattan a b"
  by (simp add: manhattan_def)

lemma heuristic_manhattan:
  assumes "manhattan goal v \<le> 16777216"
  shows "heuristic goal v = Inr (float_of_int (manhattan goal v))"
    and "float_of_int (manhattan goal v) = Fin (real (nat (manhattan goal v)))"
proof -
  have "\<bar>fst goal - fst v\<bar> \<le> 16777216" "\<bar>snd goal - snd v\<bar> \<le> 16777216"
    using assms by (simp_all add: manhattan_def)
  then show "heuristic goal v = Inr (float_of_int (manhattan goal v))"
    using assms
    by (simp add: heuristic_def manhattan_def Let_def int_range_def INT_MIN_def INT_MAX_def)
      (intro conjI; linarith)
  have "\<bar>manhattan goal v\<bar> \<le> 16777216" using assms manhattan_nonneg [of goal v] by simp
  from float_of_int_exact [OF this] manhattan_nonneg [of goal v]
  show "float_of_int (manhattan goal v) = Fin (real (nat (manhattan goal v)))" by simp
qed

section \<open>The least cost: the invariant\<close>

lemma new_cost_plain:
  assumes "\<forall>p ob. obstacles p = Some ob \<longrightarrow> type ob \<noteq> ''Destructible''"
  shows "new_cost_of g obstacles csf current n =
    (if has_type obstacles n ''Indestructible'' then None
     else Some (subscript csf current + cost g current n))"
proof (cases "obstacles n")
  case None
  then show ?thesis by (simp add: new_cost_of_def has_type_def Let_def)
next
  case (Some ob)
  with assms have "type ob \<noteq> ''Destructible''" by blast
  with Some show ?thesis by (simp add: new_cost_of_def has_type_def Let_def)
qed

lemma charged_plain:
  assumes "\<forall>p ob. obstacles p = Some ob \<longrightarrow> type ob \<noteq> ''Destructible''"
  shows "charged g obstacles c u v =
    (if has_type obstacles v ''Indestructible'' then None else Some (c + cost g u v))"
proof (cases "obstacles v")
  case None
  then show ?thesis by (simp add: charged_def has_type_def)
next
  case (Some ob)
  with assms have "type ob \<noteq> ''Destructible''" by blast
  with Some show ?thesis by (simp add: charged_def has_type_def)
qed

lemma visit_neighbor_cases3:
  assumes "heuristic goal n = Inr h"
  obtains (skip) "new_cost_of g obstacles (cost_so_far st) current n = None"
      and "visit_neighbor g goal obstacles current st n = Inr st"
  | (keep) nc cn where "new_cost_of g obstacles (cost_so_far st) current n = Some nc"
      and "cost_so_far st n = Some cn" and "\<not> nc < cn"
      and "visit_neighbor g goal obstacles current st n = Inr st"
  | (better) nc where "new_cost_of g obstacles (cost_so_far st) current n = Some nc"
      and "\<forall>cn. cost_so_far st n = Some cn \<longrightarrow> nc < cn"
      and "visit_neighbor g goal obstacles current st n =
        Inr (st\<lparr>cost_so_far := (cost_so_far st)(n \<mapsto> nc),
                frontier := frontier st @ [(nc + h, n)],
                came_from := (came_from st)(n \<mapsto> current)\<rparr>)"
proof (cases "new_cost_of g obstacles (cost_so_far st) current n")
  case None
  then show ?thesis by (intro skip) (simp_all add: visit_neighbor_def)
next
  case (Some nc)
  show ?thesis
  proof (cases "cost_so_far st n")
    case None
    with Some assms show ?thesis
      by (intro better [of nc]) (simp_all add: visit_neighbor_def)
  next
    case cn: (Some cn)
    show ?thesis
    proof (cases "nc < cn")
      case True
      with Some cn assms show ?thesis
        by (intro better [of nc]) (simp_all add: visit_neighbor_def subscript_def)
    next
      case False
      with Some cn assms show ?thesis
        by (intro keep [of nc cn]) (simp_all add: visit_neighbor_def subscript_def)
    qed
  qed
qed

lemma opt_invD:
  assumes "opt_inv g obstacles start goal W st"
  shows "tree_inv g start st" and "exact_costs W st" and "chain_inv g obstacles start st"
    and "entries_above st"
  using assms by (simp_all add: opt_inv_def)

lemma integer_weights_nonneg:
  assumes "integer_weights g W"
  shows "\<forall>u v. v \<in> set (neighbors g u) \<longrightarrow> Fin 0 \<le> cost g u v"
proof (intro allI impI)
  fix u v assume "v \<in> set (neighbors g u)"
  with assms obtain n where "cost g u v = Fin (real n)" unfolding integer_weights_def by blast
  then show "Fin 0 \<le> cost g u v" by simp
qed

lemma card_dom_nodes:
  assumes fin: "finite (dom (edges g))" and b: "basic_inv g start st"
  shows "card (dom (cost_so_far st)) \<le> card (nodes g start)" and "finite (dom (cost_so_far st))"
proof -
  from b have sub: "dom (cost_so_far st) \<subseteq> nodes g start" by (simp add: basic_inv_def)
  from card_mono [OF finite_nodes [OF fin] sub]
  show "card (dom (cost_so_far st)) \<le> card (nodes g start)" .
  from finite_subset [OF sub finite_nodes [OF fin]] show "finite (dom (cost_so_far st))" .
qed

lemma opt_visit:
  assumes iw: "integer_weights g W"
    and nd: "\<forall>p ob. obstacles p = Some ob \<longrightarrow> type ob \<noteq> ''Destructible''"
    and se: "small_enough g start goal W H" and fin: "finite (dom (edges g))"
    and inv: "opt_inv g obstacles start goal W st"
    and sx: "settled_except g obstacles goal st {current}"
    and rc: "relaxed_on g obstacles st current V"
    and cur: "cost_so_far st current = Some c" and nb: "n \<in> set (neighbors g current)"
  shows "\<exists>s'. visit_neighbor g goal obstacles current st n = Inr s' \<and>
    opt_inv g obstacles start goal W s' \<and>
    settled_except g obstacles goal s' {current} \<and>
    relaxed_on g obstacles s' current (insert n V) \<and> cost_so_far s' current = Some c"
proof -
  note ti = opt_invD(1) [OF inv] and ex = opt_invD(2) [OF inv] and ch = opt_invD(3) [OF inv]
    and ea = opt_invD(4) [OF inv]
  note ti' = tree_invD [OF ti]
  have nnf: "nonneg_float x" if "cost_so_far st v = Some x" for v x
    using ti'(4) that by blast
  have nn0: "Fin 0 \<le> x" if "cost_so_far st v = Some x" for v x
    using nonneg_float_le [OF nnf [OF that]] .
  from iw nb obtain nw where w: "cost g current n = Fin (real nw)" "nw \<le> W"
    unfolding integer_weights_def by blast
  from ex cur obtain k where k: "c = Fin (real k)" "k + W \<le> W * card (dom (cost_so_far st))"
    unfolding exact_costs_def by blast
  have nN: "n \<in> nodes g start" by (rule neighbor_in_nodes [OF nb])
  from se nN have hn: "manhattan goal n \<le> int H" and small: "W * card (nodes g start) + H \<le> 16777216"
    unfolding small_enough_def by blast+
  from card_dom_nodes [OF fin ti'(1)]
  have cd: "card (dom (cost_so_far st)) \<le> card (nodes g start)"
    and fd: "finite (dom (cost_so_far st))" by simp_all
  have "W * card (dom (cost_so_far st)) \<le> W * card (nodes g start)" using cd by simp
  with k(2) small have kb: "k + W \<le> 16777216" by linarith
  have "manhattan goal n \<le> 16777216" using hn small by linarith
  note hm = heuristic_manhattan [OF this]
  define hv where "hv = float_of_int (manhattan goal n)"
  have h: "heuristic goal n = Inr hv" and h0: "Fin 0 \<le> hv"
    using hm by (simp_all add: hv_def)
  have sum: "c + cost g current n = Fin (real (k + nw))"
    unfolding k(1) w(1) using kb w(2) by (intro fin_add_exact) simp
  have nce: "new_cost_of g obstacles (cost_so_far st) current n =
    (if has_type obstacles n ''Indestructible'' then None else Some (Fin (real (k + nw))))"
    using cur sum by (simp add: new_cost_plain [OF nd] subscript_def)
  from h show ?thesis
  proof (cases rule: visit_neighbor_cases3
      [where g = g and obstacles = obstacles and current = current and st = st])
    case skip
    with nce have ind: "has_type obstacles n ''Indestructible''" by (simp split: if_splits)
    have "relaxed_on g obstacles st current (insert n V)"
      using rc ind unfolding relaxed_on_def by blast
    with skip(2) inv sx cur show ?thesis by simp
  next
    case (keep nc cn)
    with nce have nc: "nc = c + cost g current n" by (simp add: sum split: if_splits)
    have "Fin 0 \<le> nc" by (simp add: nc sum)
    from nn_not_less [OF this nn0 [OF keep(2)] keep(3)] have le: "cn \<le> c + cost g current n"
      by (simp add: nc)
    have "relaxed_on g obstacles st current (insert n V)"
      unfolding relaxed_on_def
    proof (intro allI impI, elim conjE)
      fix cu v
      assume a: "cost_so_far st current = Some cu" "v \<in> insert n V"
        "v \<in> set (neighbors g current)" "\<not> has_type obstacles v ''Indestructible''"
      show "\<exists>cv. cost_so_far st v = Some cv \<and> cv \<le> cu + cost g current v"
      proof (cases "v = n")
        case True
        with a(1) cur keep(2) le show ?thesis by simp
      next
        case False
        with a rc show ?thesis unfolding relaxed_on_def by blast
      qed
    qed
    with keep(4) inv sx cur show ?thesis by simp
  next
    case (better nc)
    with nce have usable: "\<not> has_type obstacles n ''Indestructible''"
      and nc: "nc = Fin (real (k + nw))" by (simp_all split: if_splits)
    have nc_sum: "nc = c + cost g current n" by (simp add: nc sum)
    define s' where "s' = st\<lparr>cost_so_far := (cost_so_far st)(n \<mapsto> nc),
                frontier := frontier st @ [(nc + hv, n)],
                came_from := (came_from st)(n \<mapsto> current)\<rparr>"
    have vis: "visit_neighbor g goal obstacles current st n = Inr s'"
      using better(3) by (simp add: s'_def)
    have csf': "cost_so_far s' = (cost_so_far st)(n \<mapsto> nc)"
      and fr': "frontier s' = frontier st @ [(nc + hv, n)]"
      and cf': "came_from s' = (came_from st)(n \<mapsto> current)"
      by (simp_all add: s'_def)
    have nc0: "Fin 0 \<le> nc" by (simp add: nc)
    have lower: "nc \<le> cn" if "cost_so_far st n = Some cn" for cn
      using better(2) that by (auto intro: less_cfloat_le)
    have n_cur: "n \<noteq> current"
    proof
      assume "n = current"
      with better(2) cur have "nc < c" by simp
      then show False by (simp add: nc k(1))
    qed
    have cur': "cost_so_far s' current = Some c" using cur n_cur by (simp add: csf')
    have ti1: "tree_inv g start s'"
      by (rule tree_inv_visit [OF integer_weights_nonneg [OF iw] _ ti cur nb vis])
        (use nd in auto)
    have ex1: "exact_costs W s'"
      unfolding exact_costs_def
    proof (intro allI impI)
      fix v x assume v: "cost_so_far s' v = Some x"
      have dom': "dom (cost_so_far s') = insert n (dom (cost_so_far st))" by (simp add: csf')
      have mono: "W * card (dom (cost_so_far st)) \<le> W * card (dom (cost_so_far s'))"
        unfolding dom' using fd by (intro mult_le_mono2 card_mono) auto
      show "\<exists>k'. x = Fin (real k') \<and> k' + W \<le> W * card (dom (cost_so_far s'))"
      proof (cases "v = n")
        case True
        with v have x: "x = Fin (real (k + nw))" by (simp add: csf' nc)
        have "k + nw + W \<le> W * card (dom (cost_so_far s'))"
        proof (cases "n \<in> dom (cost_so_far st)")
          case True
          then obtain cn where cn: "cost_so_far st n = Some cn" by blast
          with ex obtain ko where ko: "cn = Fin (real ko)"
            "ko + W \<le> W * card (dom (cost_so_far st))" unfolding exact_costs_def by blast
          from better(2) cn have "nc < cn" by simp
          then have "k + nw < ko" by (simp add: nc ko(1))
          with ko(2) mono show ?thesis by linarith
        next
          case False
          then have "card (dom (cost_so_far s')) = Suc (card (dom (cost_so_far st)))"
            unfolding dom' using fd by simp
          with k(2) w(2) show ?thesis by simp
        qed
        with x show ?thesis by blast
      next
        case False
        with v have "cost_so_far st v = Some x" by (simp add: csf')
        with ex obtain k' where k': "x = Fin (real k')" "k' + W \<le> W * card (dom (cost_so_far st))"
          unfolding exact_costs_def by blast
        from le_trans [OF k'(2) mono] k'(1) show ?thesis by blast
      qed
    qed
    have ch1: "chain_inv g obstacles start s'"
      unfolding chain_inv_def
    proof (intro allI impI, elim conjE)
      fix m u assume m: "m \<noteq> start" "came_from s' m = Some u"
      show "m \<in> set (neighbors g u) \<and> \<not> has_type obstacles m ''Indestructible'' \<and>
        (\<exists>cu cm. cost_so_far s' u = Some cu \<and> cost_so_far s' m = Some cm \<and>
           cu + cost g u m \<le> cm)"
      proof (cases "m = n")
        case True
        with m have u: "u = current" by (simp add: cf')
        have "c + cost g current n \<le> nc" unfolding nc_sum [symmetric] by (rule le_self [OF nc0])
        with True u nb usable cur' show ?thesis by (simp add: csf')
      next
        case False
        with m have "came_from st m = Some u" by (simp add: cf')
        with ch m(1) obtain cu cm where o: "m \<in> set (neighbors g u)"
          "\<not> has_type obstacles m ''Indestructible''" "cost_so_far st u = Some cu"
          "cost_so_far st m = Some cm" "cu + cost g u m \<le> cm"
          unfolding chain_inv_def by blast
        have "\<exists>cu'. cost_so_far s' u = Some cu' \<and> cu' + cost g u m \<le> cm"
        proof (cases "u = n")
          case True
          from integer_weights_nonneg [OF iw] o(1) have w0: "Fin 0 \<le> cost g u m" by blast
          from lower o(3) True have "nc \<le> cu" by simp
          from plus_mono_left [OF this nc0 w0] o(5) have "nc + cost g u m \<le> cm"
            by (rule le_cfloat_trans)
          with True show ?thesis by (simp add: csf')
        next
          case un: False
          with o(3,5) show ?thesis by (simp add: csf')
        qed
        with o(1,2,4) False show ?thesis by (simp add: csf')
      qed
    qed
    have nnf_nc: "nonneg_float nc"
      using tree_invD(4) [OF ti1, of n nc] by (simp add: csf')
    have ea1: "entries_above s'"
      unfolding entries_above_def
    proof
      fix e assume "e \<in> set (frontier s')"
      then consider "e \<in> set (frontier st)" | "e = (nc + hv, n)" by (auto simp: fr')
      then show "\<exists>x. cost_so_far s' (snd e) = Some x \<and> x \<le> fst e"
      proof cases
        case 1
        with ea obtain ce where ce: "cost_so_far st (snd e) = Some ce" "ce \<le> fst e"
          unfolding entries_above_def by blast
        show ?thesis
        proof (cases "snd e = n")
          case True
          with ce(1) lower have "nc \<le> ce" by simp
          from le_cfloat_trans [OF this ce(2)] True show ?thesis by (simp add: csf')
        next
          case False
          with ce show ?thesis by (simp add: csf')
        qed
      next
        case 2
        then show ?thesis using nonneg_add [OF nnf_nc h0] by (simp add: csf')
      qed
    qed
    have keep_relaxed: "relaxed_on g obstacles s' u U"
      if "relaxed_on g obstacles st u U" "u \<noteq> n" for u U
      unfolding relaxed_on_def
    proof (intro allI impI, elim conjE)
      fix cu v
      assume a: "cost_so_far s' u = Some cu" "v \<in> U" "v \<in> set (neighbors g u)"
        "\<not> has_type obstacles v ''Indestructible''"
      from a(1) that(2) have "cost_so_far st u = Some cu" by (simp add: csf')
      with that(1) a(2-4) obtain cv where cv: "cost_so_far st v = Some cv" "cv \<le> cu + cost g u v"
        unfolding relaxed_on_def by blast
      show "\<exists>cv. cost_so_far s' v = Some cv \<and> cv \<le> cu + cost g u v"
      proof (cases "v = n")
        case True
        with cv(1) lower have "nc \<le> cv" by simp
        from le_cfloat_trans [OF this cv(2)] True show ?thesis by (simp add: csf')
      next
        case False
        with cv show ?thesis by (simp add: csf')
      qed
    qed
    have se1: "settled_except g obstacles goal s' {current}"
      unfolding settled_except_def
    proof
      fix u assume u: "u \<in> dom (cost_so_far s') - {current}"
      show "is_open goal s' u \<or> relaxed_on g obstacles s' u UNIV"
      proof (cases "u = n")
        case True
        have "nc + hv \<le> nc + hv"
          using nonneg_add [OF nnf_nc h0] by (auto intro: le_right_self)
        then have "is_open goal s' n"
          unfolding is_open_def by (intro exI [of _ nc] exI [of _ "nc + hv"]) (simp add: csf' fr' hv_def)
        with True show ?thesis by simp
      next
        case False
        with u have "u \<in> dom (cost_so_far st) - {current}" by (simp add: csf')
        with sx have "is_open goal st u \<or> relaxed_on g obstacles st u UNIV"
          unfolding settled_except_def by blast
        then show ?thesis
        proof
          assume "is_open goal st u"
          then have "is_open goal s' u"
            unfolding is_open_def using False by (auto simp: csf' fr')
          then show ?thesis ..
        next
          assume "relaxed_on g obstacles st u UNIV"
          from keep_relaxed [OF this False] show ?thesis ..
        qed
      qed
    qed
    have rc1: "relaxed_on g obstacles s' current (insert n V)"
      unfolding relaxed_on_def
    proof (intro allI impI, elim conjE)
      fix cu v
      assume a: "cost_so_far s' current = Some cu" "v \<in> insert n V"
        "v \<in> set (neighbors g current)" "\<not> has_type obstacles v ''Indestructible''"
      from a(1) cur' have cu: "cu = c" by simp
      show "\<exists>cv. cost_so_far s' v = Some cv \<and> cv \<le> cu + cost g current v"
      proof (cases "v = n")
        case True
        have "nc \<le> c + cost g current n" unfolding nc_sum [symmetric] by (rule le_self [OF nc0])
        with True cu show ?thesis by (simp add: csf')
      next
        case False
        with a(2) have "v \<in> V" by simp
        from keep_relaxed [OF rc n_cur [symmetric]] a(1) this a(3,4) show ?thesis
          unfolding relaxed_on_def by blast
      qed
    qed
    have "opt_inv g obstacles start goal W s'"
      unfolding opt_inv_def using ti1 ex1 ch1 ea1 by simp
    with vis se1 rc1 cur' show ?thesis by blast
  qed
qed

lemma opt_fold:
  assumes iw: "integer_weights g W"
    and nd: "\<forall>p ob. obstacles p = Some ob \<longrightarrow> type ob \<noteq> ''Destructible''"
    and se: "small_enough g start goal W H" and fin: "finite (dom (edges g))"
    and sub: "set vs \<subseteq> set (neighbors g current)"
    and inv: "opt_inv g obstacles start goal W st"
    and sx: "settled_except g obstacles goal st {current}"
    and rc: "relaxed_on g obstacles st current V"
    and cur: "cost_so_far st current = Some c"
  shows "\<exists>s'. fold (\<lambda>neighbor r. case r of Inl e \<Rightarrow> Inl e
                    | Inr s \<Rightarrow> visit_neighbor g goal obstacles current s neighbor) vs (Inr st)
             = Inr s' \<and>
    opt_inv g obstacles start goal W s' \<and>
    settled_except g obstacles goal s' {current} \<and>
    relaxed_on g obstacles s' current (V \<union> set vs) \<and> cost_so_far s' current = Some c"
  using sub inv sx rc cur
proof (induction vs arbitrary: st V)
  case Nil
  then show ?case by simp
next
  case (Cons v vs)
  from Cons.prems(1) have v: "v \<in> set (neighbors g current)"
    and vs: "set vs \<subseteq> set (neighbors g current)" by simp_all
  from opt_visit [OF iw nd se fin Cons.prems(2,3,4,5) v] obtain s1 where
    s1: "visit_neighbor g goal obstacles current st v = Inr s1"
    "opt_inv g obstacles start goal W s1" "settled_except g obstacles goal s1 {current}"
    "relaxed_on g obstacles s1 current (insert v V)" "cost_so_far s1 current = Some c"
    by blast
  from Cons.IH [OF vs s1(2,3,4,5)] obtain s' where
    "fold (\<lambda>neighbor r. case r of Inl e \<Rightarrow> Inl e
                    | Inr s \<Rightarrow> visit_neighbor g goal obstacles current s neighbor) vs (Inr s1)
       = Inr s'"
    "opt_inv g obstacles start goal W s'" "settled_except g obstacles goal s' {current}"
    "relaxed_on g obstacles s' current (insert v V \<union> set vs)" "cost_so_far s' current = Some c"
    by blast
  with s1(1) show ?case by simp
qed

lemma in_set_remove_nth:
  assumes "x \<in> set xs" and "x \<noteq> xs ! i"
  shows "x \<in> set (take i xs @ drop (Suc i) xs)"
proof -
  from assms(1) obtain j where j: "j < length xs" "xs ! j = x" by (auto simp: in_set_conv_nth)
  with assms(2) have "j \<noteq> i" by auto
  then consider "j < i" | "i < j" by linarith
  then show ?thesis
  proof cases
    case 1
    with j have "x \<in> set (take i xs)" by (auto simp: in_set_conv_nth intro!: exI [of _ j])
    then show ?thesis by simp
  next
    case 2
    then obtain k where k: "j = Suc i + k" by (metis less_iff_Suc_add add_Suc)
    with j have "x \<in> set (drop (Suc i) xs)"
      by (auto simp: in_set_conv_nth intro!: exI [of _ k])
    then show ?thesis by simp
  qed
qed

lemma opt_inv_pop:
  assumes "opt_inv g obstacles start goal W st"
  shows "opt_inv g obstacles start goal W (pop_at i st)"
proof -
  have "entries_above (pop_at i st)"
    using opt_invD(4) [OF assms] set_remove_nth_subset [of i "frontier st"]
    unfolding entries_above_def pop_at_def by auto
  moreover have "exact_costs W (pop_at i st)"
    using opt_invD(2) [OF assms] by (simp add: exact_costs_def pop_at_fields)
  moreover have "chain_inv g obstacles start (pop_at i st)"
    using opt_invD(3) [OF assms] by (simp add: chain_inv_def pop_at_fields)
  ultimately show ?thesis
    using tree_inv_pop [OF opt_invD(1) [OF assms], of i] by (simp add: opt_inv_def)
qed

lemma opt_step:
  assumes iw: "integer_weights g W"
    and nd: "\<forall>p ob. obstacles p = Some ob \<longrightarrow> type ob \<noteq> ''Destructible''"
    and se: "small_enough g start goal W H" and fin: "finite (dom (edges g))"
    and inv: "opt_inv g obstacles start goal W st"
    and s0: "settled_except g obstacles goal st {}"
    and i: "i < length (frontier st)"
    and exp: "expand g goal obstacles (snd (frontier st ! i)) (pop_at i st) = Inr s'"
  shows "opt_inv g obstacles start goal W s' \<and> settled_except g obstacles goal s' {}"
proof -
  define current where "current = snd (frontier st ! i)"
  let ?s1 = "pop_at i st"
  from frontier_recorded [OF tree_invD(1) [OF opt_invD(1) [OF inv]] i] obtain c where
    c: "cost_so_far ?s1 current = Some c" by (auto simp: current_def pop_at_fields)
  have sx: "settled_except g obstacles goal ?s1 {current}"
    unfolding settled_except_def
  proof
    fix u assume u: "u \<in> dom (cost_so_far ?s1) - {current}"
    then have "u \<in> dom (cost_so_far st) - {}" by (simp add: pop_at_fields)
    with s0 have "is_open goal st u \<or> relaxed_on g obstacles st u UNIV"
      unfolding settled_except_def by blast
    then show "is_open goal ?s1 u \<or> relaxed_on g obstacles ?s1 u UNIV"
    proof
      assume "is_open goal st u"
      then obtain cu p where o: "cost_so_far st u = Some cu" "(p, u) \<in> set (frontier st)"
        "p \<le> cu + float_of_int (manhattan goal u)" unfolding is_open_def by blast
      have "(p, u) \<noteq> frontier st ! i"
      proof
        assume "(p, u) = frontier st ! i"
        then have "snd (frontier st ! i) = u" by (metis snd_conv)
        with u show False by (simp add: current_def)
      qed
      from in_set_remove_nth [OF o(2) this] have "(p, u) \<in> set (frontier ?s1)"
        by (simp add: pop_at_def)
      with o(1,3) have "is_open goal ?s1 u"
        unfolding is_open_def by (auto simp: pop_at_fields)
      then show ?thesis ..
    next
      assume "relaxed_on g obstacles st u UNIV"
      then have "relaxed_on g obstacles ?s1 u UNIV"
        by (simp add: relaxed_on_def pop_at_fields)
      then show ?thesis ..
    qed
  qed
  have rc: "relaxed_on g obstacles ?s1 current {}" by (simp add: relaxed_on_def)
  from opt_fold [OF iw nd se fin subset_refl opt_inv_pop [OF inv] sx rc c]
  obtain s2 where s2: "expand g goal obstacles current ?s1 = Inr s2"
    "opt_inv g obstacles start goal W s2" "settled_except g obstacles goal s2 {current}"
    "relaxed_on g obstacles s2 current ({} \<union> set (neighbors g current))"
    unfolding expand_def by blast
  from s2(1) exp have eq: "s' = s2" by (simp add: current_def)
  have "relaxed_on g obstacles s2 current UNIV"
    using s2(4) unfolding relaxed_on_def by auto
  with s2(3) have "settled_except g obstacles goal s2 {}"
    unfolding settled_except_def by blast
  with s2(2) eq show ?thesis by simp
qed

lemma opt_inv_init:
  "opt_inv g obstacles start goal W (init_state start) \<and>
   settled_except g obstacles goal (init_state start) {}"
proof -
  have 1: "exact_costs W (init_state start)"
    by (auto simp: exact_costs_def init_state_def split: if_splits)
  have 2: "chain_inv g obstacles start (init_state start)"
    by (auto simp: chain_inv_def init_state_def split: if_splits)
  have 3: "entries_above (init_state start)"
    by (auto simp: entries_above_def init_state_def)
  have "Fin 0 \<le> float_of_int (manhattan goal start)"
    using nonneg_float_le [OF nonneg_to_float [of "real_of_int (manhattan goal start)"]]
      manhattan_nonneg [of goal start]
    by (simp add: float_of_int_def)
  from nonneg_add [OF nonneg_float_zero this]
  have "Fin 0 \<le> Fin 0 + float_of_int (manhattan goal start)" by simp
  then have "is_open goal (init_state start) start"
    unfolding is_open_def
    by (intro exI [of _ "Fin 0"]) (simp add: init_state_def)
  then have 4: "settled_except g obstacles goal (init_state start) {}"
    by (auto simp: settled_except_def init_state_def split: if_splits)
  from 1 2 3 4 tree_inv_init [of g start] show ?thesis by (simp add: opt_inv_def)
qed

text \<open>The state in which the loop ends.\<close>

lemma a_star_loop_final:
  assumes pick: "picks_entry pick" and fin: "finite (dom (edges g))"
    and hd: "heuristic_defined g goal"
    and base: "\<And>s. I s \<Longrightarrow> basic_inv g start s"
    and step: "\<And>s i s'. I s \<Longrightarrow> i < length (frontier s) \<Longrightarrow>
      expand g goal obstacles (snd (frontier s ! i)) (pop_at i s) = Inr s' \<Longrightarrow> I s'"
    and I0: "I st"
  shows "\<exists>s. I s \<and>
    (frontier s = [] \<and> a_star_loop pick g goal obstacles st = Some (Inr s) \<or>
     frontier s \<noteq> [] \<and> snd (frontier s ! pick (pops s) (frontier s)) = goal \<and>
     a_star_loop pick g goal obstacles st = Some (Inr (pop_at (pick (pops s) (frontier s)) s)))"
proof -
  define R where "R = inv_image (less_than <*lex*> less_than)
    (\<lambda>s. (rank_sum g start s, length (frontier s)))"
  have wfR: "wf R" unfolding R_def by (intro wf_inv_image wf_lex_prod wf_less_than)
  from I0 show ?thesis
  proof (induction st rule: wf_induct_rule [OF wfR])
    case (1 st)
    show ?case
    proof (cases "frontier st = []")
      case True
      with 1(2) show ?thesis by (intro exI [of _ st]) (simp add: a_star_loop.simps)
    next
      case False
      define i where "i = pick (pops st) (frontier st)"
      define current where "current = snd (frontier st ! i)"
      from pick False have i: "i < length (frontier st)" unfolding picks_entry_def i_def by blast
      show ?thesis
      proof (cases "current = goal")
        case True
        have "a_star_loop pick g goal obstacles st = Some (Inr (pop_at i st))"
          using False True by (subst a_star_loop.simps) (simp add: Let_def i_def current_def)
        with False True 1(2) show ?thesis
          by (intro exI [of _ st]) (simp add: i_def current_def)
      next
        case ng: False
        let ?s1 = "pop_at i st"
        from frontier_recorded [OF base [OF 1(2)] i] obtain c where
          c: "cost_so_far ?s1 current = Some c" by (auto simp: current_def pop_at_fields)
        have "\<exists>s'. fold (\<lambda>neighbor r. case r of Inl e \<Rightarrow> Inl e
                    | Inr s \<Rightarrow> visit_neighbor g goal obstacles current s neighbor)
                 (neighbors g current) (Inr ?s1) = Inr s' \<and> True \<and>
               (s' = ?s1 \<or> rank_sum g start s' < rank_sum g start ?s1)"
          by (rule fold_visit [where I = "\<lambda>s. True", OF fin hd _ subset_refl _ c]) simp_all
        then obtain s2 where s2: "expand g goal obstacles current ?s1 = Inr s2"
          "s2 = ?s1 \<or> rank_sum g start s2 < rank_sum g start ?s1"
          unfolding expand_def by blast
        have I2: "I s2" using step [OF 1(2) i] s2(1) by (simp add: current_def)
        have same: "rank_sum g start ?s1 = rank_sum g start st"
          by (simp add: rank_sum_def pop_at_fields)
        have "(s2, st) \<in> R"
        proof (cases "s2 = ?s1")
          case True
          with same pop_at_fields(3) [OF i] show ?thesis by (simp add: R_def)
        next
          case False
          with s2(2) same show ?thesis by (simp add: R_def)
        qed
        from 1(1) [OF this I2] obtain s where s: "I s"
          "frontier s = [] \<and> a_star_loop pick g goal obstacles s2 = Some (Inr s) \<or>
           frontier s \<noteq> [] \<and> snd (frontier s ! pick (pops s) (frontier s)) = goal \<and>
           a_star_loop pick g goal obstacles s2 =
             Some (Inr (pop_at (pick (pops s) (frontier s)) s))"
          by blast
        have "a_star_loop pick g goal obstacles st = a_star_loop pick g goal obstacles s2"
          using False ng s2(1) by (subst a_star_loop.simps) (simp add: Let_def i_def current_def)
        with s show ?thesis by (intro exI [of _ s]) simp
      qed
    qed
  qed
qed

section \<open>The least cost: paths\<close>

lemma path_cost_ge:
  assumes iw: "integer_weights g W"
    and nd: "\<forall>p ob. obstacles p = Some ob \<longrightarrow> type ob \<noteq> ''Destructible''"
    and v: "valid_path g obstacles p" and f: "nonneg_float f"
  shows "f \<le> path_cost_from g obstacles f p \<and> nonneg_float (path_cost_from g obstacles f p)"
  using v f
proof (induction p arbitrary: f)
  case Nil
  then show ?case by simp
next
  case (Cons x p)
  show ?case
  proof (cases p)
    case Nil
    with Cons.prems(2) show ?thesis using le_self [OF nonneg_float_le] by simp
  next
    case (Cons y rest)
    with Cons.prems(1) have y: "y \<in> set (neighbors g x)"
      "\<not> has_type obstacles y ''Indestructible''" "valid_path g obstacles p" by simp_all
    from integer_weights_nonneg [OF iw] y(1) have w0: "Fin 0 \<le> cost g x y" by blast
    have ch: "charged g obstacles f x y = Some (f + cost g x y)"
      using y(2) by (simp add: charged_plain [OF nd])
    from nonneg_add [OF Cons.prems(2) w0]
    have s: "nonneg_float (f + cost g x y)" "f \<le> f + cost g x y" by simp_all
    from Cons.IH [OF y(3) s(1)]
    have "f + cost g x y \<le> path_cost_from g obstacles (f + cost g x y) p"
      "nonneg_float (path_cost_from g obstacles (f + cost g x y) p)"
      by simp_all
    with s(2) ch Cons show ?thesis by (auto intro: le_cfloat_trans)
  qed
qed

lemma pot_below:
  assumes iw: "integer_weights g W"
    and nd: "\<forall>p ob. obstacles p = Some ob \<longrightarrow> type ob \<noteq> ''Destructible''"
    and cons: "consistent g obstacles goal" and t: "t \<le> 16777216"
    and v: "valid_path g obstacles (x # rest)" and l: "last (x # rest) = goal"
    and kf: "Fin (real k) \<le> f" and f: "nonneg_float f"
    and tk: "int t \<le> int k + manhattan goal x" and kt: "k \<le> t"
  shows "Fin (real t) \<le> path_cost_from g obstacles f (x # rest)"
  using v l kf f tk kt
proof (induction rest arbitrary: x k f)
  case Nil
  then have "x = goal" by simp
  with Nil(5,6) have "k = t" by (simp add: manhattan_def)
  with Nil(3) show ?case by simp
next
  case (Cons y rest)
  from Cons.prems(1) have y: "y \<in> set (neighbors g x)" "\<not> has_type obstacles y ''Indestructible''"
    "valid_path g obstacles (y # rest)" by simp_all
  from iw y(1) obtain n where n: "cost g x y = Fin (real n)" "n \<le> W"
    unfolding integer_weights_def by blast
  from cons y(1,2) n(1) have hc: "manhattan goal x \<le> int n + manhattan goal y"
    unfolding consistent_def by blast
  have ch: "charged g obstacles f x y = Some (f + Fin (real n))"
    using y(2) n(1) by (simp add: charged_plain [OF nd])
  have w0: "Fin 0 \<le> Fin (real n)" by simp
  from nonneg_add [OF Cons.prems(4) w0] have f': "nonneg_float (f + Fin (real n))" by simp
  have k0: "Fin 0 \<le> Fin (real k)" by simp
  from plus_mono_left [OF Cons.prems(3) k0 w0]
  have mono: "Fin (real k) + Fin (real n) \<le> f + Fin (real n)" .
  have pc: "path_cost_from g obstacles f (x # y # rest) =
    path_cost_from g obstacles (f + Fin (real n)) (y # rest)" by (simp add: ch)
  show ?case
  proof (cases "k + n \<le> t")
    case True
    with t have "k + n \<le> 16777216" by simp
    from fin_add_exact [OF this] mono have kf': "Fin (real (k + n)) \<le> f + Fin (real n)" by simp
    have tk': "int t \<le> int (k + n) + manhattan goal y" using Cons.prems(5) hc by simp
    from Cons.IH [OF y(3) _ kf' f' tk' True] Cons.prems(2) pc show ?thesis by simp
  next
    case False
    then have "real t \<le> real k + real n" by simp
    from to_float_mono [OF this] have "Fin (real t) \<le> Fin (real k) + Fin (real n)"
      by (simp add: fin_nat_exact [OF t])
    from le_cfloat_trans [OF this mono] have 1: "Fin (real t) \<le> f + Fin (real n)" .
    from path_cost_ge [OF iw nd y(3) f']
    have "f + Fin (real n) \<le> path_cost_from g obstacles (f + Fin (real n)) (y # rest)" by simp
    from le_cfloat_trans [OF 1 this] pc show ?thesis by simp
  qed
qed

lemma below_path:
  assumes iw: "integer_weights g W"
    and nd: "\<forall>p ob. obstacles p = Some ob \<longrightarrow> type ob \<noteq> ''Destructible''"
    and se: "small_enough g start goal W H" and fin: "finite (dom (edges g))"
    and cons: "consistent g obstacles goal"
    and inv: "opt_inv g obstacles start goal W s"
    and s0: "settled_except g obstacles goal s {}"
    and final: "frontier s = [] \<or>
      (\<exists>i. i < length (frontier s) \<and> snd (frontier s ! i) = goal \<and>
         (\<forall>e \<in> set (frontier s). \<not> fst e < fst (frontier s ! i)))"
    and cg: "cost_so_far s goal = Some cg"
    and v: "valid_path g obstacles (x # rest)" and l: "last (x # rest) = goal"
    and cx: "cost_so_far s x = Some cx" and le: "cx \<le> f" and f: "nonneg_float f"
  shows "cg \<le> path_cost_from g obstacles f (x # rest)"
  using v l cx le f
proof (induction rest arbitrary: x cx f)
  case Nil
  with cg show ?case by simp
next
  case (Cons y rest)
  note ti = tree_invD [OF opt_invD(1) [OF inv]]
  have nn0: "Fin 0 \<le> c" if "cost_so_far s u = Some c" for u c
    using nonneg_float_le [OF ti(4) [OF that]] .
  from Cons.prems(1) have y: "y \<in> set (neighbors g x)" "\<not> has_type obstacles y ''Indestructible''"
    "valid_path g obstacles (y # rest)" by simp_all
  from integer_weights_nonneg [OF iw] y(1) have w0: "Fin 0 \<le> cost g x y" by blast
  have ch: "charged g obstacles f x y = Some (f + cost g x y)"
    using y(2) by (simp add: charged_plain [OF nd])
  from nonneg_add [OF Cons.prems(5) w0] have f': "nonneg_float (f + cost g x y)" by simp
  have pc: "path_cost_from g obstacles f (x # y # rest) =
    path_cost_from g obstacles (f + cost g x y) (y # rest)" by (simp add: ch)
  from Cons.prems(3) s0 have "is_open goal s x \<or> relaxed_on g obstacles s x UNIV"
    unfolding settled_except_def by blast
  then show ?case
  proof
    assume "relaxed_on g obstacles s x UNIV"
    with Cons.prems(3) y(1,2) obtain cy where cy: "cost_so_far s y = Some cy"
      "cy \<le> cx + cost g x y" unfolding relaxed_on_def by blast
    from plus_mono_left [OF Cons.prems(4) nn0 [OF Cons.prems(3)] w0]
    have "cx + cost g x y \<le> f + cost g x y" .
    from le_cfloat_trans [OF cy(2) this] have "cy \<le> f + cost g x y" .
    from Cons.IH [OF y(3) _ cy(1) this f'] Cons.prems(2) pc show ?thesis by simp
  next
    assume "is_open goal s x"
    then obtain cx' p where o: "cost_so_far s x = Some cx'" "(p, x) \<in> set (frontier s)"
      "p \<le> cx' + float_of_int (manhattan goal x)" unfolding is_open_def by blast
    with Cons.prems(3) have cx': "cx' = cx" by simp
    from o(2) final obtain i where i: "i < length (frontier s)" "snd (frontier s ! i) = goal"
      "\<forall>e \<in> set (frontier s). \<not> fst e < fst (frontier s ! i)" by auto
    from opt_invD(4) [OF inv] i(1,2) cg have gp: "cg \<le> fst (frontier s ! i)"
      unfolding entries_above_def using nth_mem [OF i(1)] by fastforce
    from opt_invD(4) [OF inv] o(2) Cons.prems(3) have xp: "cx \<le> p"
      unfolding entries_above_def by fastforce
    from i(3) o(2) have "\<not> p < fst (frontier s ! i)" by fastforce
    from nn_not_less [OF le_nn [OF nn0 [OF Cons.prems(3)] xp] le_nn [OF nn0 [OF cg] gp] this]
    have Pp: "fst (frontier s ! i) \<le> p" .
    from opt_invD(2) [OF inv] Cons.prems(3) obtain k where
      k: "cx = Fin (real k)" "k + W \<le> W * card (dom (cost_so_far s))"
      unfolding exact_costs_def by blast
    from card_dom_nodes [OF fin ti(1)]
    have "W * card (dom (cost_so_far s)) \<le> W * card (nodes g start)" by simp
    with k(2) have kN: "k \<le> W * card (nodes g start)" by linarith
    from ti(1) Cons.prems(3) have "x \<in> nodes g start" unfolding basic_inv_def by blast
    with se have hx: "manhattan goal x \<le> int H"
      and small: "W * card (nodes g start) + H \<le> 16777216"
      unfolding small_enough_def by blast+
    define t where "t = k + nat (manhattan goal x)"
    have t: "t \<le> 16777216" using kN hx small by (simp add: t_def)
    have "manhattan goal x \<le> 16777216" using hx small by linarith
    from heuristic_manhattan(2) [OF this]
    have hxv: "float_of_int (manhattan goal x) = Fin (real (nat (manhattan goal x)))" .
    have "cx + float_of_int (manhattan goal x) = Fin (real t)"
      unfolding k(1) hxv t_def by (rule fin_add_exact) (use t in \<open>simp add: t_def\<close>)
    with o(3) cx' have pt: "p \<le> Fin (real t)" by simp
    have "Fin (real t) \<le> path_cost_from g obstacles f (x # y # rest)"
    proof (rule pot_below [OF iw nd cons t Cons.prems(1,2) _ Cons.prems(5)])
      show "Fin (real k) \<le> f" using Cons.prems(4) k(1) by simp
      show "int t \<le> int k + manhattan goal x" using manhattan_nonneg [of goal x] by (simp add: t_def)
      show "k \<le> t" by (simp add: t_def)
    qed
    with gp Pp pt show ?thesis by (auto intro: le_cfloat_trans)
  qed
qed

lemma path_cost_snoc:
  assumes "p \<noteq> []"
  shows "path_cost_from g obstacles c (p @ [n]) =
    (case charged g obstacles (path_cost_from g obstacles c p) (last p) n of
       None \<Rightarrow> PosInf | Some c' \<Rightarrow> c')"
  using assms
proof (induction g obstacles c p rule: path_cost_from.induct)
  case (1 g obstacles c x y rest)
  then show ?case by simp
next
  case (2 g obstacles c x)
  then show ?case by simp
next
  case (3 g obstacles c)
  then show ?case by simp
qed

lemma valid_path_snoc:
  assumes "valid_path g obstacles p" and "n \<in> set (neighbors g (last p))"
    and "\<not> has_type obstacles n ''Indestructible''"
  shows "valid_path g obstacles (p @ [n])"
  using assms by (induction g obstacles p rule: valid_path.induct) simp_all

lemma walk_back_path:
  assumes iw: "integer_weights g W"
    and nd: "\<forall>p ob. obstacles p = Some ob \<longrightarrow> type ob \<noteq> ''Destructible''"
    and fin: "finite (dom (edges g))" and inv: "opt_inv g obstacles start goal W st"
    and n: "cost_so_far st n = Some c"
  shows "\<exists>q. (\<forall>path. walk_back (came_from st) start n path = Some (Inr (path @ q))) \<and>
    path_between g obstacles start n (rev (q @ [start])) \<and>
    path_cost g obstacles (rev (q @ [start])) \<le> c"
  using n
proof (induction n arbitrary: c rule: wf_induct_rule [OF pred_rel_wf [OF fin opt_invD(1) [OF inv]]])
  case (1 n)
  note ti = tree_invD [OF opt_invD(1) [OF inv]]
  show ?case
  proof (cases "n = start")
    case True
    have "\<forall>path. walk_back (came_from st) start n path = Some (Inr (path @ []))"
      using True by (simp add: walk_back.simps)
    moreover have "path_between g obstacles start n (rev ([] @ [start]))"
      using True by (simp add: path_between_def)
    moreover have "path_cost g obstacles (rev ([] @ [start])) \<le> c"
      using 1(2) ti(2) True by (auto simp: path_cost_def)
    ultimately show ?thesis by blast
  next
    case False
    from 1(2) ti(1) have "n \<in> dom (came_from st)" unfolding basic_inv_def by blast
    then obtain u where u: "came_from st n = Some u" by blast
    from opt_invD(3) [OF inv] False u 1(2) obtain cu where e: "n \<in> set (neighbors g u)"
      "\<not> has_type obstacles n ''Indestructible''" "cost_so_far st u = Some cu"
      "cu + cost g u n \<le> c"
      unfolding chain_inv_def by fastforce
    from False u have "(u, n) \<in> pred_rel (came_from st) start" by (simp add: pred_rel_def)
    from 1(1) [OF this e(3)] obtain q where
      q: "\<forall>path. walk_back (came_from st) start u path = Some (Inr (path @ q))"
      "path_between g obstacles start u (rev (q @ [start]))"
      "path_cost g obstacles (rev (q @ [start])) \<le> cu"
      by blast
    let ?p = "rev (q @ [start])"
    from q(2) have p: "?p \<noteq> []" "hd ?p = start" "last ?p = u" "valid_path g obstacles ?p"
      unfolding path_between_def by blast+
    from path_cost_ge [OF iw nd p(4) nonneg_float_zero]
    have p0: "Fin 0 \<le> path_cost g obstacles ?p"
      unfolding path_cost_def by (auto intro: nonneg_float_le)
    from integer_weights_nonneg [OF iw] e(1) have w0: "Fin 0 \<le> cost g u n" by blast
    have "path_cost g obstacles (?p @ [n]) = path_cost g obstacles ?p + cost g u n"
      unfolding path_cost_def path_cost_snoc [OF p(1)] p(3)
      using e(2) by (simp add: charged_plain [OF nd])
    moreover from plus_mono_left [OF q(3) p0 w0] e(4)
    have "path_cost g obstacles ?p + cost g u n \<le> c" by (rule le_cfloat_trans)
    ultimately have cost: "path_cost g obstacles (?p @ [n]) \<le> c" by simp
    have "\<forall>path. walk_back (came_from st) start n path = Some (Inr (path @ (n # q)))"
    proof
      fix path
      have "walk_back (came_from st) start n path =
          walk_back (came_from st) start u (path @ [n])"
        using False u by (subst walk_back.simps) simp
      with q(1) show "walk_back (came_from st) start n path = Some (Inr (path @ (n # q)))"
        by simp
    qed
    moreover have "rev ((n # q) @ [start]) = ?p @ [n]" by simp
    moreover have "path_between g obstacles start n (?p @ [n])"
      using p valid_path_snoc [OF p(4)] e(1,2) unfolding path_between_def by simp
    ultimately show ?thesis using cost by metis
  qed
qed

lemma small_heuristic_defined:
  assumes "small_enough g start goal W H"
  shows "heuristic_defined g goal"
  unfolding heuristic_defined_def
proof (intro allI impI)
  fix u v assume "v \<in> set (neighbors g u)"
  from neighbor_in_nodes [OF this, of start] assms
  have "manhattan goal v \<le> int H" "W * card (nodes g start) + H \<le> 16777216"
    unfolding small_enough_def by blast+
  then have "manhattan goal v \<le> 16777216" by linarith
  from heuristic_manhattan(1) [OF this] show "\<exists>h. heuristic goal v = Inr h" by blast
qed

text \<open>
  C2 as amended. Take a finite graph whose edges all have a weight that is a whole number,
  at most \<open>W\<close>, an obstacle map without Destructible obstacles, and a goal for which the
  Manhattan heuristic is consistent with these weights; let the graph be small enough
  for sums of costs and heuristic values to stay below \<open>2\<^sup>2\<^sup>4\<close>, where \<^verbatim>\<open>float\<close>
  arithmetic on whole numbers is exact. Then the search returns, and if it has recorded
  the goal, \<open>reconstruct_path\<close> returns a path from start to goal whose total cost is
  the least among all paths from start to goal.
\<close>

theorem search_optimal:
  assumes "heap_top pick" and "finite (dom (edges graph))"
    and "integer_weights graph W"
    and "\<forall>p ob. obstacles p = Some ob \<longrightarrow> type ob \<noteq> ''Destructible''"
    and "consistent graph obstacles goal" and "small_enough graph start goal W H"
  shows "\<exists>cf csf. a_star_search pick graph start goal obstacles = Some (Inr (cf, csf)) \<and>
    (cf goal \<noteq> None \<longrightarrow>
       (\<exists>p. reconstruct_path cf start goal = Some (Inr p) \<and>
          path_between graph obstacles start goal p \<and>
          (\<forall>q. path_between graph obstacles start goal q \<longrightarrow>
             path_cost graph obstacles p \<le> path_cost graph obstacles q)))"
proof -
  note iw = assms(3) and nd = assms(4) and cons = assms(5) and se = assms(6) and fin = assms(2)
  let ?I = "\<lambda>s. opt_inv graph obstacles start goal W s \<and> settled_except graph obstacles goal s {}"
  have "\<exists>s. ?I s \<and>
    (frontier s = [] \<and> a_star_loop pick graph goal obstacles (init_state start) = Some (Inr s) \<or>
     frontier s \<noteq> [] \<and> snd (frontier s ! pick (pops s) (frontier s)) = goal \<and>
     a_star_loop pick graph goal obstacles (init_state start) =
       Some (Inr (pop_at (pick (pops s) (frontier s)) s)))"
  proof (rule a_star_loop_final [where I = ?I and start = start,
        OF heap_top_picks [OF assms(1)] fin small_heuristic_defined [OF se]])
    show "\<And>s. ?I s \<Longrightarrow> basic_inv graph start s"
      using tree_invD(1) opt_invD(1) by blast
    show "\<And>s i s'. ?I s \<Longrightarrow> i < length (frontier s) \<Longrightarrow>
        expand graph goal obstacles (snd (frontier s ! i)) (pop_at i s) = Inr s' \<Longrightarrow> ?I s'"
      using opt_step [OF iw nd se fin] by blast
    show "?I (init_state start)" by (rule opt_inv_init)
  qed
  then obtain s where inv: "opt_inv graph obstacles start goal W s"
    and s0: "settled_except graph obstacles goal s {}"
    and res: "frontier s = [] \<and>
        a_star_loop pick graph goal obstacles (init_state start) = Some (Inr s) \<or>
      frontier s \<noteq> [] \<and> snd (frontier s ! pick (pops s) (frontier s)) = goal \<and>
        a_star_loop pick graph goal obstacles (init_state start) =
          Some (Inr (pop_at (pick (pops s) (frontier s)) s))"
    by blast
  from res have run: "a_star_search pick graph start goal obstacles =
      Some (Inr (came_from s, cost_so_far s))"
    by (auto simp: a_star_search_def pop_at_fields)
  have final: "frontier s = [] \<or>
      (\<exists>i. i < length (frontier s) \<and> snd (frontier s ! i) = goal \<and>
         (\<forall>e \<in> set (frontier s). \<not> fst e < fst (frontier s ! i)))"
  proof (cases "frontier s = []")
    case True
    then show ?thesis ..
  next
    case False
    with res have g: "snd (frontier s ! pick (pops s) (frontier s)) = goal" by simp
    from assms(1) False have "pick (pops s) (frontier s) < length (frontier s) \<and>
      (\<forall>e \<in> set (frontier s). \<not> fst e < fst (frontier s ! pick (pops s) (frontier s)))"
      unfolding heap_top_def by blast
    with g show ?thesis by blast
  qed
  note ti = tree_invD [OF opt_invD(1) [OF inv]]
  have "\<exists>p. reconstruct_path (came_from s) start goal = Some (Inr p) \<and>
          path_between graph obstacles start goal p \<and>
          (\<forall>q. path_between graph obstacles start goal q \<longrightarrow>
             path_cost graph obstacles p \<le> path_cost graph obstacles q)"
    if rec: "came_from s goal \<noteq> None"
  proof -
    from rec ti(1) have "goal \<in> dom (cost_so_far s)" unfolding basic_inv_def by blast
    then obtain cg where cg: "cost_so_far s goal = Some cg" by blast
    from walk_back_path [OF iw nd fin inv cg] obtain w where
      w: "walk_back (came_from s) start goal [] = Some (Inr w)"
      "path_between graph obstacles start goal (rev (w @ [start]))"
      "path_cost graph obstacles (rev (w @ [start])) \<le> cg"
      by force
    have rp: "reconstruct_path (came_from s) start goal = Some (Inr (rev (w @ [start])))"
      using rec w(1) by (auto simp: reconstruct_path_def)
    have "path_cost graph obstacles (rev (w @ [start])) \<le> path_cost graph obstacles q"
      if q: "path_between graph obstacles start goal q" for q
    proof -
      from q obtain rest where qq: "q = start # rest" "valid_path graph obstacles (start # rest)"
        "last (start # rest) = goal"
        unfolding path_between_def by (cases q) auto
      have "Fin 0 \<le> (Fin 0 :: cfloat)" by simp
      from below_path [OF iw nd se fin cons inv s0 final cg qq(2,3) ti(2) this nonneg_float_zero]
      have "cg \<le> path_cost graph obstacles q" by (simp add: path_cost_def qq(1))
      with w(3) show ?thesis by (rule le_cfloat_trans)
    qed
    with rp w(2) show ?thesis by blast
  qed
  with run show ?thesis by blast
qed

end
